theory Spec2Isabelle
  imports Complex_Main "HOL-Library.Product_Lexorder" "HOL-Library.Log_Nat"
begin

chapter \<open>A wedding media collector: upload admission, uploader identity, deletion and
  archive export\<close>

text \<open>
  The development embeds \<^verbatim>\<open>server.js\<close>: an Express application that stores guests'
  photos and videos on disk, keeps their metadata in three SQLite tables
  (\<^verbatim>\<open>uploaders\<close>, \<^verbatim>\<open>photos\<close>, \<^verbatim>\<open>videos\<close>) and lets an administrator delete
  and export them. Every route handler becomes a function from the state of store and file
  system to a new state and a response. What the handlers read from their environment (the
  clock, the random number generator, the behaviour of the external \<^verbatim>\<open>zip\<close> tool) is an
  explicit argument.
\<close>

section \<open>JavaScript strings and numbers\<close>

text \<open>
  A JavaScript string is a sequence of UTF-16 code units. The model covers the code units
  below 256 (ASCII and Latin-1), one \<^typ>\<open>char\<close> each. The white space of \<^verbatim>\<open>trim()\<close> and
  of the regular expression class \<^verbatim>\<open>\s\<close> is the same set; in this range it consists of
  tab, line feed, vertical tab, form feed, carriage return, space and no-break space.
\<close>

definition is_space :: "char \<Rightarrow> bool" where
  "is_space c \<longleftrightarrow>
     c \<in> {CHR 0x09, CHR 0x0A, CHR 0x0B, CHR 0x0C, CHR 0x0D, CHR 0x20, CHR 0xA0}"

definition trim :: "string \<Rightarrow> string" where
  "trim s = rev (dropWhile is_space (rev (dropWhile is_space s)))"

text \<open>
  \<^verbatim>\<open>toLowerCase()\<close> on code units below 256 moves \<^verbatim>\<open>A\<close>--\<^verbatim>\<open>Z\<close> and the
  Latin-1 capitals \<^verbatim>\<open>0xC0\<close>--\<^verbatim>\<open>0xDE\<close> (without the multiplication sign \<^verbatim>\<open>0xD7\<close>)
  up by 32 and leaves every other code unit alone.
\<close>

definition lower_char :: "char \<Rightarrow> char" where
  "lower_char c =
     (let n = (of_char c :: nat)
      in if (65 \<le> n \<and> n \<le> 90) \<or> (192 \<le> n \<and> n \<le> 222 \<and> n \<noteq> 215)
         then char_of (n + 32) else c)"

definition toLowerCase :: "string \<Rightarrow> string" where
  "toLowerCase s = map lower_char s"

text \<open>
  \<^verbatim>\<open>String(n)\<close> of a non-negative integer is its decimal numeral; \<^verbatim>\<open>padStart(n, c)\<close>
  with a one-character filler puts copies of the filler in front of a shorter string and
  leaves a longer one as it is.
\<close>

definition is_digit :: "char \<Rightarrow> bool" where
  "is_digit c \<longleftrightarrow> c \<in> set ''0123456789''"

definition digit_char :: "nat \<Rightarrow> char" where
  "digit_char d = ''0123456789'' ! d"

definition digit_value :: "char \<Rightarrow> nat" where
  "digit_value c = of_char c - 48"

fun digits :: "nat \<Rightarrow> string" where
  "digits n = (if n < 10 then [digit_char n] else digits (n div 10) @ [digit_char (n mod 10)])"

declare digits.simps [simp del]

definition decimal :: "string \<Rightarrow> nat" where
  "decimal s = foldl (\<lambda>a c. 10 * a + digit_value c) 0 s"

definition padStart :: "nat \<Rightarrow> char \<Rightarrow> string \<Rightarrow> string" where
  "padStart n c s = replicate (n - length s) c @ s"

text \<open>
  The numbers of the program are integers or \<^verbatim>\<open>NaN\<close>. Arithmetic and comparison follow
  IEEE 754 where \<^verbatim>\<open>NaN\<close> is involved: every operation on \<^verbatim>\<open>NaN\<close> gives \<^verbatim>\<open>NaN\<close>, every
  comparison with it is false.
\<close>

datatype jsnum = Num int | NaN

fun js_sub :: "jsnum \<Rightarrow> jsnum \<Rightarrow> jsnum" where
  "js_sub (Num a) (Num b) = Num (a - b)"
| "js_sub _ _ = NaN"

fun js_max :: "jsnum \<Rightarrow> jsnum \<Rightarrow> jsnum" where
  "js_max (Num a) (Num b) = Num (max a b)"
| "js_max _ _ = NaN"

fun js_min :: "jsnum \<Rightarrow> jsnum \<Rightarrow> jsnum" where
  "js_min (Num a) (Num b) = Num (min a b)"
| "js_min _ _ = NaN"

fun js_le :: "jsnum \<Rightarrow> jsnum \<Rightarrow> bool" where
  "js_le (Num a) (Num b) = (a \<le> b)"
| "js_le _ _ = False"

fun String :: "jsnum \<Rightarrow> string" where
  "String (Num i) = (if i < 0 then CHR ''-'' # digits (nat (- i)) else digits (nat i))"
| "String NaN = ''NaN''"

text \<open>
  \<^verbatim>\<open>xs.slice(0, n)\<close> and \<^verbatim>\<open>xs.slice(n)\<close>: the index is converted to an integer, with
  \<^verbatim>\<open>NaN\<close> becoming 0, and a negative index counts from the end of the array.
\<close>

definition slice_index :: "jsnum \<Rightarrow> nat \<Rightarrow> nat" where
  "slice_index n len =
     (case n of NaN \<Rightarrow> 0
      | Num i \<Rightarrow> if i < 0 then nat (max 0 (int len + i)) else min (nat i) len)"

definition slice_to :: "'a list \<Rightarrow> jsnum \<Rightarrow> 'a list" where
  "slice_to xs n = take (slice_index n (length xs)) xs"

definition slice_from :: "'a list \<Rightarrow> jsnum \<Rightarrow> 'a list" where
  "slice_from xs n = drop (slice_index n (length xs)) xs"

text \<open>
  \<^verbatim>\<open>Number(s)\<close> of a string is a double: a rational number that a double holds, negative
  zero, an infinity or \<^verbatim>\<open>NaN\<close>. (The limits and counts of the handlers are integers or
  \<^verbatim>\<open>NaN\<close> and stay in \<^typ>\<open>jsnum\<close>.)
\<close>

datatype js_value = Finite rat | NegZero | Infinity | NegInfinity | NotANumber

text \<open>
  Rounding to double precision: a positive rational \<open>x\<close> with \<open>2\<^sup>e \<le> x < 2\<^sup>e\<^sup>+\<^sup>1\<close> is
  rounded to the nearest multiple of \<open>2\<^sup>q\<close>, \<open>q = max (e - 52) (-1074)\<close>, ties going to the
  even multiple; a result of \<open>2\<^sup>1\<^sup>0\<^sup>2\<^sup>4\<close> or more is infinite. \<open>bitlen n\<close> is the number of
  binary digits of \<open>n\<close>. The exact decimal value is rounded, as Node.js does (the language
  standard also lets an implementation cut a literal after its 20th significant digit
  first).
\<close>

definition pow2 :: "int \<Rightarrow> rat" where
  "pow2 k = (if 0 \<le> k then 2 ^ nat k else 1 / 2 ^ nat (- k))"

definition pow10 :: "int \<Rightarrow> rat" where
  "pow10 k = (if 0 \<le> k then 10 ^ nat k else 1 / 10 ^ nat (- k))"

definition floor_log2 :: "rat \<Rightarrow> int" where
  "floor_log2 x =
     (let (n, d) = quotient_of x; e0 = bitlen n - bitlen d
      in if pow2 e0 \<le> x then e0 else e0 - 1)"

definition round_half_even :: "rat \<Rightarrow> int" where
  "round_half_even x =
     (let f = \<lfloor>x\<rfloor>; r = x - of_int f
      in if r < 1 / 2 then f else if 1 / 2 < r then f + 1 else if even f then f else f + 1)"

definition nearest_double :: "rat \<Rightarrow> rat" where
  "nearest_double x =
     (if x = 0 then 0
      else let q = max (floor_log2 x - 52) (- 1074)
           in of_int (round_half_even (x / pow2 q)) * pow2 q)"

definition to_double :: "bool \<Rightarrow> rat \<Rightarrow> js_value" where
  "to_double negative magnitude =
     (let v = nearest_double magnitude
      in if pow2 1024 \<le> v then (if negative then NegInfinity else Infinity)
         else if v = 0 \<and> negative then NegZero
         else Finite (if negative then - v else v))"

text \<open>
  The conversion first reads the string as a \<^verbatim>\<open>StringNumericLiteral\<close>: white space
  around nothing, around a binary, octal or hexadecimal integer (\<^verbatim>\<open>0b\<close>, \<^verbatim>\<open>0o\<close>,
  \<^verbatim>\<open>0x\<close>, unsigned), or around an optionally signed decimal literal, which is
  \<^verbatim>\<open>Infinity\<close> or digits with an optional fraction and an optional exponent, at least
  one digit before or after the dot. A string that cannot be read so is \<^verbatim>\<open>NaN\<close>; no
  prefix of it is used (unlike \<^verbatim>\<open>parseFloat\<close>).
\<close>

datatype parsed_literal =
    Blank
  | InfinityLiteral bool
  | DecimalLiteral bool string string int
  | RadixLiteral nat string

definition DecimalDigits :: "string \<Rightarrow> bool" where
  "DecimalDigits ds \<longleftrightarrow> ds \<noteq> [] \<and> list_all is_digit ds"

definition ExponentPart :: "string \<Rightarrow> int option" where
  "ExponentPart r =
     (case r of
        [] \<Rightarrow> Some 0
      | c # cs \<Rightarrow>
          if c = CHR ''e'' \<or> c = CHR ''E'' then
            (case cs of
               [] \<Rightarrow> None
             | s # ds \<Rightarrow>
                 if s = CHR ''+'' then (if DecimalDigits ds then Some (int (decimal ds)) else None)
                 else if s = CHR ''-'' then (if DecimalDigits ds then Some (- int (decimal ds)) else None)
                 else if DecimalDigits cs then Some (int (decimal cs)) else None)
          else None)"

definition StrUnsignedDecimalLiteral :: "bool \<Rightarrow> string \<Rightarrow> parsed_literal option" where
  "StrUnsignedDecimalLiteral negative u =
     (let ip = takeWhile is_digit u;
          r1 = dropWhile is_digit u;
          dot = (r1 \<noteq> [] \<and> hd r1 = CHR ''.'');
          fp = (if dot then takeWhile is_digit (tl r1) else []);
          r2 = (if dot then dropWhile is_digit (tl r1) else r1)
      in if u = ''Infinity'' then Some (InfinityLiteral negative)
         else if ip = [] \<and> fp = [] then None
         else (case ExponentPart r2 of
                 None \<Rightarrow> None
               | Some ex \<Rightarrow> Some (DecimalLiteral negative ip fp ex)))"

definition StrDecimalLiteral :: "string \<Rightarrow> parsed_literal option" where
  "StrDecimalLiteral t =
     (if t \<noteq> [] \<and> hd t = CHR ''+'' then StrUnsignedDecimalLiteral False (tl t)
      else if t \<noteq> [] \<and> hd t = CHR ''-'' then StrUnsignedDecimalLiteral True (tl t)
      else StrUnsignedDecimalLiteral False t)"

definition radix_of :: "char \<Rightarrow> nat option" where
  "radix_of c =
     (if c = CHR ''x'' \<or> c = CHR ''X'' then Some 16
      else if c = CHR ''o'' \<or> c = CHR ''O'' then Some 8
      else if c = CHR ''b'' \<or> c = CHR ''B'' then Some 2 else None)"

definition radix_digit :: "nat \<Rightarrow> char \<Rightarrow> bool" where
  "radix_digit b c \<longleftrightarrow>
     (if b = 16 then is_digit c \<or> c \<in> set ''abcdefABCDEF''
      else is_digit c \<and> digit_value c < b)"

definition radix_digit_value :: "char \<Rightarrow> nat" where
  "radix_digit_value c =
     (if is_digit c then digit_value c
      else if c \<in> set ''abcdef'' then of_char c - 87 else of_char c - 55)"

definition radix_value :: "nat \<Rightarrow> string \<Rightarrow> nat" where
  "radix_value b ds = foldl (\<lambda>a c. b * a + radix_digit_value c) 0 ds"

definition NonDecimalIntegerLiteral :: "string \<Rightarrow> parsed_literal option" where
  "NonDecimalIntegerLiteral t =
     (case t of
        z # p # ds \<Rightarrow>
          (case radix_of p of
             None \<Rightarrow> None
           | Some b \<Rightarrow> if z = CHR ''0'' \<and> ds \<noteq> [] \<and> list_all (radix_digit b) ds
                       then Some (RadixLiteral b ds) else None)
      | _ \<Rightarrow> None)"

definition StringNumericLiteral :: "string \<Rightarrow> parsed_literal option" where
  "StringNumericLiteral s =
     (let t = trim s
      in if t = [] then Some Blank
         else (case NonDecimalIntegerLiteral t of
                 Some l \<Rightarrow> Some l
               | None \<Rightarrow> StrDecimalLiteral t))"

text \<open>
  The value of a literal: nothing but white space is 0; the digits \<open>ip.fp\<close> with exponent
  \<open>ex\<close> denote \<open>decimal (ip @ fp) \<times> 10\<^bsup>ex - length fp\<^esup>\<close>, rounded to a double, and keep the
  sign also when they round to zero.
\<close>

fun StringNumericValue :: "parsed_literal \<Rightarrow> js_value" where
  "StringNumericValue Blank = Finite 0"
| "StringNumericValue (InfinityLiteral negative) = (if negative then NegInfinity else Infinity)"
| "StringNumericValue (DecimalLiteral negative ip fp ex) =
     to_double negative (of_nat (decimal (ip @ fp)) * pow10 (ex - int (length fp)))"
| "StringNumericValue (RadixLiteral b ds) = to_double False (of_nat (radix_value b ds))"

definition Number :: "string \<Rightarrow> js_value" where
  "Number s = (case StringNumericLiteral s of None \<Rightarrow> NotANumber | Some l \<Rightarrow> StringNumericValue l)"

section \<open>Configuration\<close>

text \<open>
  The environment maps a variable name to its value, if it is set. A limit is read as
  \<^verbatim>\<open>Number(process.env.X || d)\<close>: the default \<open>d\<close> stands in when the variable is unset
  or is the empty string (both are falsy), and any other value goes through \<^verbatim>\<open>Number\<close>.
  The photo limits are constants of the program.
\<close>

type_synonym env = "string \<Rightarrow> string option"

definition number_or_default :: "string option \<Rightarrow> int \<Rightarrow> js_value" where
  "number_or_default v d =
     (case v of None \<Rightarrow> Finite (of_int d)
      | Some s \<Rightarrow> if s = [] then Finite (of_int d) else Number s)"

definition MAX_PHOTOS_PER_PERSON :: jsnum where
  "MAX_PHOTOS_PER_PERSON = Num 10"

definition MAX_TOTAL_PHOTOS :: jsnum where
  "MAX_TOTAL_PHOTOS = Num 600"

definition MAX_VIDEOS_PER_PERSON :: "env \<Rightarrow> js_value" where
  "MAX_VIDEOS_PER_PERSON e = number_or_default (e ''MAX_VIDEOS_PER_PERSON'') 10"

definition MAX_TOTAL_VIDEOS :: "env \<Rightarrow> js_value" where
  "MAX_TOTAL_VIDEOS e = number_or_default (e ''MAX_TOTAL_VIDEOS'') 400"

definition MAX_VIDEO_SIZE_MB :: "env \<Rightarrow> js_value" where
  "MAX_VIDEO_SIZE_MB e = number_or_default (e ''MAX_VIDEO_SIZE_MB'') 1200"

section \<open>Store and file system\<close>

text \<open>
  The rows of \<^verbatim>\<open>uploaders\<close> and of the two media tables, with the columns the program
  reads (\<^verbatim>\<open>uploaders.created_at\<close> is never read and is left out). Timestamps are in
  seconds; the text form SQLite stores has a fixed width, so comparing the texts is
  comparing the numbers.
\<close>

record uploader =
  u_id :: nat
  u_name :: string
  normalized_name :: string

record media =
  m_id :: nat
  uploader_id :: nat
  filename :: string
  original_name :: string
  mime_type :: string
  m_size :: nat
  uploaded_at :: nat

datatype kind = Photo | Video

text \<open>
  A table is the list of its rows in insertion order, together with the counter SQLite keeps
  for an \<^verbatim>\<open>AUTOINCREMENT\<close> key: the largest row id the table ever held. The file system
  is the set of paths of regular files, and the scratch directories with the names of
  their entries.
\<close>

record state =
  uploaders :: "uploader list"
  uploaders_seq :: nat
  photos :: "media list"
  photos_seq :: nat
  videos :: "media list"
  videos_seq :: nat
  files :: "string set"
  dirs :: "string \<Rightarrow> string set option"

record config =
  videos_per_person :: jsnum
  total_videos :: jsnum
  uploadDir :: string
  tmpdir :: string

definition per_person_limit :: "config \<Rightarrow> kind \<Rightarrow> jsnum" where
  "per_person_limit cfg k = (case k of Photo \<Rightarrow> MAX_PHOTOS_PER_PERSON | Video \<Rightarrow> videos_per_person cfg)"

definition total_limit :: "config \<Rightarrow> kind \<Rightarrow> jsnum" where
  "total_limit cfg k = (case k of Photo \<Rightarrow> MAX_TOTAL_PHOTOS | Video \<Rightarrow> total_videos cfg)"

definition table :: "kind \<Rightarrow> state \<Rightarrow> media list" where
  "table k st = (case k of Photo \<Rightarrow> photos st | Video \<Rightarrow> videos st)"

definition table_seq :: "kind \<Rightarrow> state \<Rightarrow> nat" where
  "table_seq k st = (case k of Photo \<Rightarrow> photos_seq st | Video \<Rightarrow> videos_seq st)"

definition set_table :: "kind \<Rightarrow> media list \<Rightarrow> nat \<Rightarrow> state \<Rightarrow> state" where
  "set_table k rows sq st =
     (case k of Photo \<Rightarrow> st\<lparr>photos := rows, photos_seq := sq\<rparr>
      | Video \<Rightarrow> st\<lparr>videos := rows, videos_seq := sq\<rparr>)"

definition next_rowid :: "nat \<Rightarrow> nat list \<Rightarrow> nat" where
  "next_rowid sq ids = Suc (fold max ids sq)"

definition path_join :: "string \<Rightarrow> string \<Rightarrow> string" where
  "path_join d f = d @ ''/'' @ f"

text \<open>
  \<^verbatim>\<open>safeUnlink\<close> and \<^verbatim>\<open>safeRemoveDir\<close> swallow every error, so removing what is not
  there changes nothing.
\<close>

definition safeUnlink :: "string \<Rightarrow> state \<Rightarrow> state" where
  "safeUnlink filePath st = st\<lparr>files := files st - {filePath}\<rparr>"

definition safeRemoveDir :: "string \<Rightarrow> state \<Rightarrow> state" where
  "safeRemoveDir dirPath st = st\<lparr>dirs := (dirs st)(dirPath := None)\<rparr>"

subsection \<open>Uploader identity\<close>

definition normalizeName :: "string \<Rightarrow> string" where
  "normalizeName name = toLowerCase (trim name)"

definition getOrCreateUploader :: "string \<Rightarrow> state \<Rightarrow> state \<times> uploader" where
  "getOrCreateUploader name st =
     (let normalized = normalizeName name
      in case find (\<lambda>u. normalized_name u = normalized) (uploaders st) of
           Some u \<Rightarrow> (st, u)
         | None \<Rightarrow>
             let lastInsertRowid = next_rowid (uploaders_seq st) (map u_id (uploaders st));
                 u = \<lparr>u_id = lastInsertRowid, u_name = trim name, normalized_name = normalized\<rparr>
             in (st\<lparr>uploaders := uploaders st @ [u], uploaders_seq := lastInsertRowid\<rparr>, u))"

definition getUploaderCount :: "kind \<Rightarrow> nat \<Rightarrow> state \<Rightarrow> jsnum" where
  "getUploaderCount k uploaderId st =
     Num (int (length (filter (\<lambda>m. uploader_id m = uploaderId) (table k st))))"

definition getTotalCount :: "kind \<Rightarrow> state \<Rightarrow> jsnum" where
  "getTotalCount k st = Num (int (length (table k st)))"

definition cleanupOrphanUploaders :: "state \<Rightarrow> state" where
  "cleanupOrphanUploaders st =
     st\<lparr>uploaders :=
          filter (\<lambda>u. u_id u \<in> set (map uploader_id (photos st)) \<union> set (map uploader_id (videos st)))
            (uploaders st)\<rparr>"

section \<open>Stored file names\<close>

text \<open>
  \<^verbatim>\<open>path.extname\<close> (POSIX): trailing separators are dropped, the last path component is
  taken, and the extension runs from its last dot to its end. There is no extension when
  the component has no dot, when its only dot is its first character, and when the
  component is \<^verbatim>\<open>..\<close>.
\<close>

definition extname :: "string \<Rightarrow> string" where
  "extname p =
     (let trimmed = rev (dropWhile (\<lambda>c. c = CHR ''/'') (rev p));
          base = rev (takeWhile (\<lambda>c. c \<noteq> CHR ''/'') (rev trimmed));
          after_dot = rev (takeWhile (\<lambda>c. c \<noteq> CHR ''.'') (rev base));
          before_dot = take (length base - length after_dot - 1) base
      in if CHR ''.'' \<notin> set base \<or> before_dot = [] \<or> base = ''..'' then []
         else CHR ''.'' # after_dot)"

record upfile =
  path :: string
  file_name :: "string option"
  originalname :: string
  mimetype :: string
  file_size :: nat

text \<open>
  \<^verbatim>\<open>storageFilename\<close> passes the name to its callback; \<open>now\<close> is \<^verbatim>\<open>Date.now()\<close> and
  \<open>rnd\<close> is \<^verbatim>\<open>Math.round(Math.random() * 1e9)\<close>.
\<close>

definition storageFilename :: "nat \<Rightarrow> nat \<Rightarrow> upfile \<Rightarrow> string" where
  "storageFilename now rnd file =
     (let extension = extname (originalname file);
          unique = digits now @ ''-'' @ digits rnd
      in unique @ extension)"

section \<open>Upload\<close>

text \<open>
  A request carries the name field of the form (the empty string when the field is
  missing) and the files multer has already written to disk. A file object has no
  \<^verbatim>\<open>filename\<close> when its \<^const>\<open>file_name\<close> is \<^const>\<open>None\<close>; the test suite submits such
  an object to make the insert fail. \<open>req_now\<close> is the clock reading that
  \<^verbatim>\<open>CURRENT_TIMESTAMP\<close> stores.
\<close>

record upload_request =
  req_name :: string
  req_files :: "upfile list"
  req_now :: nat

datatype flash = Error string | Message string

text \<open>
  \<open>Redirect page f\<close> is the redirect to \<open>page\<close> with the flash text as its URL-encoded
  \<^verbatim>\<open>error=\<close> or \<^verbatim>\<open>message=\<close> parameter; \<open>Download path name entries\<close> sends the archive
  at \<open>path\<close> under the given name; \<open>Unhandled\<close> is an exception that leaves the handler.
\<close>

datatype response =
    Redirect string flash
  | Download string string "string set"
  | Unhandled

datatype db_error = NotNull string

definition error_message :: "db_error \<Rightarrow> string" where
  "error_message e = (case e of NotNull col \<Rightarrow> ''NOT NULL constraint failed: '' @ col)"

definition plural :: "kind \<Rightarrow> string" where
  "plural k = (case k of Photo \<Rightarrow> ''photos'' | Video \<Rightarrow> ''videos'')"

definition noun :: "kind \<Rightarrow> string" where
  "noun k = (case k of Photo \<Rightarrow> ''photo'' | Video \<Rightarrow> ''video'')"

definition Noun :: "kind \<Rightarrow> string" where
  "Noun k = (case k of Photo \<Rightarrow> ''Photo'' | Video \<Rightarrow> ''Video'')"

definition home :: "kind \<Rightarrow> string" where
  "home k = ''/?tab='' @ plural k"

definition full_message :: "kind \<Rightarrow> string" where
  "full_message k =
     (case k of Photo \<Rightarrow> ''Upload limit reached: this gallery is full.''
      | Video \<Rightarrow> ''Video upload limit reached: this gallery is full.'')"

definition per_person_message :: "config \<Rightarrow> kind \<Rightarrow> string" where
  "per_person_message cfg k =
     (case k of Photo \<Rightarrow> ''You have already uploaded your maximum of 10 photos.''
      | Video \<Rightarrow> ''You have already uploaded your maximum of '' @ String (videos_per_person cfg)
                 @ '' videos.'')"

definition success_message :: "kind \<Rightarrow> string \<Rightarrow> nat \<Rightarrow> nat \<Rightarrow> string" where
  "success_message k name uploadedCount limitedCount =
     ''Thanks '' @ name @ ''! Uploaded '' @ digits uploadedCount @ '' '' @ noun k
       @ (if uploadedCount = 1 then [] else ''s'') @ ''.''
       @ (if limitedCount > 0
          then '' '' @ digits limitedCount @ '' '' @ noun k
                 @ (if limitedCount = 1 then '' was'' else ''s were'')
                 @ '' skipped due to upload limits.''
          else [])"

definition unlink_all :: "upfile list \<Rightarrow> state \<Rightarrow> state" where
  "unlink_all fs st = fold (\<lambda>f. safeUnlink (path f)) fs st"

text \<open>
  The prepared \<^verbatim>\<open>INSERT\<close> run for each accepted file. Its columns are \<^verbatim>\<open>NOT NULL\<close>, so a
  file object without \<^verbatim>\<open>filename\<close> makes the statement throw. \<^verbatim>\<open>db.transaction\<close> commits
  when the loop ends and rolls the table back when a statement throws.
\<close>

fun insert_all :: "kind \<Rightarrow> nat \<Rightarrow> nat \<Rightarrow> upfile list \<Rightarrow> media list \<times> nat
    \<Rightarrow> db_error + media list \<times> nat" where
  "insert_all k uploaderId now [] (rows, sq) = Inr (rows, sq)"
| "insert_all k uploaderId now (file # rest) (rows, sq) =
     (case file_name file of
        None \<Rightarrow> Inl (NotNull (plural k @ ''.filename''))
      | Some fn \<Rightarrow>
          let rowid = next_rowid sq (map m_id rows);
              row = \<lparr>m_id = rowid, uploader_id = uploaderId, filename = fn,
                     original_name = originalname file, mime_type = mimetype file,
                     m_size = file_size file, uploaded_at = now\<rparr>
          in insert_all k uploaderId now rest (rows @ [row], rowid))"

definition transaction :: "kind \<Rightarrow> nat \<Rightarrow> nat \<Rightarrow> upfile list \<Rightarrow> state \<Rightarrow> db_error + state" where
  "transaction k uploaderId now fs st =
     (case insert_all k uploaderId now fs (table k st, table_seq k st) of
        Inl e \<Rightarrow> Inl e
      | Inr (rows, sq) \<Rightarrow> Inr (set_table k rows sq st))"

definition remainingForUploader :: "kind \<Rightarrow> config \<Rightarrow> nat \<Rightarrow> state \<Rightarrow> jsnum" where
  "remainingForUploader k cfg uploaderId st =
     js_max (Num 0) (js_sub (per_person_limit cfg k) (getUploaderCount k uploaderId st))"

definition remainingGlobal :: "kind \<Rightarrow> config \<Rightarrow> state \<Rightarrow> jsnum" where
  "remainingGlobal k cfg st = js_max (Num 0) (js_sub (total_limit cfg k) (getTotalCount k st))"

definition allowedNow :: "kind \<Rightarrow> config \<Rightarrow> nat \<Rightarrow> state \<Rightarrow> jsnum" where
  "allowedNow k cfg uploaderId st =
     js_min (remainingForUploader k cfg uploaderId st) (remainingGlobal k cfg st)"

text \<open>
  The handlers of \<^verbatim>\<open>POST /upload\<close> and \<^verbatim>\<open>POST /upload/videos\<close> differ in the table, the
  limits and the wording only; \<open>upload Photo\<close> is the first and \<open>upload Video\<close> the second.
\<close>

definition upload :: "kind \<Rightarrow> config \<Rightarrow> upload_request \<Rightarrow> state \<Rightarrow> state \<times> response" where
  "upload k cfg req st =
     (let uploadedFiles = req_files req;
          name = trim (req_name req)
      in if name = [] then
           (unlink_all uploadedFiles st, Redirect (home k) (Error ''Please provide your name.''))
         else if uploadedFiles = [] then
           (st, Redirect (home k) (Error (''Please select at least one '' @ noun k @ ''.'')))
         else
           let (st1, uploader) = getOrCreateUploader name st;
               allowed = allowedNow k cfg (u_id uploader) st1
           in if js_le allowed (Num 0) then
                (unlink_all uploadedFiles st1,
                 Redirect (home k)
                   (Error (if js_le (remainingGlobal k cfg st1) (Num 0) then full_message k
                           else per_person_message cfg k)))
              else
                let acceptedFiles = slice_to uploadedFiles allowed;
                    rejectedFiles = slice_from uploadedFiles allowed;
                    st2 = unlink_all rejectedFiles st1
                in case transaction k (u_id uploader) (req_now req) acceptedFiles st2 of
                     Inl e \<Rightarrow>
                       (unlink_all uploadedFiles st2, Redirect (home k) (Error (error_message e)))
                   | Inr st3 \<Rightarrow>
                       (st3,
                        Redirect (home k)
                          (Message (success_message k (u_name uploader) (length acceptedFiles)
                                      (length rejectedFiles)))))"

section \<open>Deletion\<close>

text \<open>
  The id of a single-item route is \<^verbatim>\<open>Number(req.params.id)\<close>, already converted here.
  A number that is no row id (a fraction, for instance) selects no row, as an integer
  without a row does. The two handlers of each route pair differ in the table and the
  wording only.
\<close>

definition admin_page :: "kind \<Rightarrow> string" where
  "admin_page k = ''/admin/'' @ plural k"

definition delete_one :: "kind \<Rightarrow> config \<Rightarrow> jsnum \<Rightarrow> state \<Rightarrow> state \<times> response" where
  "delete_one k cfg id_param st =
     (case id_param of
        NaN \<Rightarrow> (st, Redirect (admin_page k) (Error (''Invalid '' @ noun k @ '' ID.'')))
      | Num i \<Rightarrow>
          (case find (\<lambda>m. int (m_id m) = i) (table k st) of
             None \<Rightarrow> (st, Redirect (admin_page k) (Error (Noun k @ '' not found.'')))
           | Some row \<Rightarrow>
               let st1 = set_table k (filter (\<lambda>m. int (m_id m) \<noteq> i) (table k st))
                           (table_seq k st) st;
                   st2 = safeUnlink (path_join (uploadDir cfg) (filename row)) st1;
                   st3 = cleanupOrphanUploaders st2
               in (st3, Redirect (admin_page k) (Message (Noun k @ '' deleted.'')))))"

definition delete_all :: "kind \<Rightarrow> config \<Rightarrow> state \<Rightarrow> state \<times> response" where
  "delete_all k cfg st =
     (let st1 = fold (\<lambda>row. safeUnlink (path_join (uploadDir cfg) (filename row))) (table k st) st;
          st2 = set_table k [] (table_seq k st1) st1;
          st3 = cleanupOrphanUploaders st2
      in (st3, Redirect (admin_page k) (Message (''All '' @ plural k @ '' deleted.''))))"

section \<open>Archive export\<close>

definition unsafe_char :: "char \<Rightarrow> bool" where
  "unsafe_char c \<longleftrightarrow>
     c \<in> {CHR ''/'', CHR 0x5C, CHR ''?'', CHR ''%'', CHR ''*'', CHR '':'', CHR ''|'',
          CHR 0x22, CHR ''<'', CHR ''>''}"

definition replace_unsafe :: "string \<Rightarrow> string" where
  "replace_unsafe s = map (\<lambda>c. if unsafe_char c then CHR ''-'' else c) s"

text \<open>
  \<^verbatim>\<open>replace(/\s+/g, ' ')\<close>: each maximal run of white space becomes one space.
\<close>

function collapse_spaces :: "string \<Rightarrow> string" where
  "collapse_spaces [] = []"
| "collapse_spaces (c # cs) =
     (if is_space c then CHR '' '' # collapse_spaces (dropWhile is_space cs)
      else c # collapse_spaces cs)"
  by pat_completeness auto
termination
  by (relation "measure length") (auto simp: less_Suc_eq_le length_dropWhile_le)

definition sanitizeArchiveFilename :: "string \<Rightarrow> string" where
  "sanitizeArchiveFilename name = trim (collapse_spaces (replace_unsafe name))"

text \<open>
  The rows of a table as \<^verbatim>\<open>ORDER BY uploaded_at DESC, id DESC\<close> returns them.
\<close>

definition query_newest_first :: "media list \<Rightarrow> media list" where
  "query_newest_first rows = rev (sort_key (\<lambda>m. (uploaded_at m, m_id m)) rows)"

definition fallbackName :: "kind \<Rightarrow> media \<Rightarrow> string" where
  "fallbackName k m = noun k @ ''-'' @ digits (m_id m) @ extname (filename m)"

definition stagedName :: "kind \<Rightarrow> media \<Rightarrow> string" where
  "stagedName k m =
     padStart 4 (CHR ''0'') (digits (m_id m)) @ ''-''
       @ sanitizeArchiveFilename
           (if original_name m \<noteq> [] then original_name m else fallbackName k m)"

text \<open>
  What the export takes from its environment: the suffix \<^verbatim>\<open>mkdtempSync\<close> draws for the
  scratch directory, \<^verbatim>\<open>Date.now()\<close>, the date stamp of the download name, whether
  \<^verbatim>\<open>copyFileSync\<close> succeeds on a source path, and how the \<^verbatim>\<open>zip\<close> process ends. A
  failing \<^verbatim>\<open>zip\<close> may leave a partial archive behind (\<open>ZipFailed True\<close>).
\<close>

datatype zip_outcome = ZipOk | ZipFailed bool

record export_env =
  tmp_suffix :: string
  now_ms :: nat
  stamp :: string
  copy_ok :: "string \<Rightarrow> bool"
  zip_result :: zip_outcome

definition present :: "config \<Rightarrow> state \<Rightarrow> media \<Rightarrow> bool" where
  "present cfg st m \<longleftrightarrow> path_join (uploadDir cfg) (filename m) \<in> files st"

text \<open>
  The copy loop. A row whose file is absent is skipped; a copy that throws ends the loop
  with the state reached so far (\<open>Inl\<close>); otherwise the staged name is entered in the
  scratch directory and counted.
\<close>

fun copy_files :: "kind \<Rightarrow> config \<Rightarrow> export_env \<Rightarrow> string \<Rightarrow> media list \<Rightarrow> state \<times> nat
    \<Rightarrow> state + state \<times> nat" where
  "copy_files k cfg e tempDir [] (st, copiedCount) = Inr (st, copiedCount)"
| "copy_files k cfg e tempDir (m # ms) (st, copiedCount) =
     (let sourcePath = path_join (uploadDir cfg) (filename m)
      in if sourcePath \<notin> files st then copy_files k cfg e tempDir ms (st, copiedCount)
         else
           (case dirs st tempDir of
              None \<Rightarrow> Inl st
            | Some entries \<Rightarrow>
                if \<not> copy_ok e sourcePath then Inl st
                else copy_files k cfg e tempDir ms
                       (st\<lparr>dirs := (dirs st)(tempDir \<mapsto> insert (stagedName k m) entries)\<rparr>,
                        Suc copiedCount)))"

definition tempDir_of :: "kind \<Rightarrow> config \<Rightarrow> export_env \<Rightarrow> string" where
  "tempDir_of k cfg e = path_join (tmpdir cfg) (''wedding-'' @ plural k @ ''-'' @ tmp_suffix e)"

definition archivePath_of :: "kind \<Rightarrow> config \<Rightarrow> export_env \<Rightarrow> string" where
  "archivePath_of k cfg e =
     path_join (tmpdir cfg) (''wedding-'' @ plural k @ ''-'' @ digits (now_ms e) @ ''.zip'')"

definition zip_failed_message :: string where
  "zip_failed_message = ''Could not create ZIP archive on this server.''"

text \<open>
  The handlers of \<^verbatim>\<open>GET /admin/photos/download\<close> and \<^verbatim>\<open>GET /admin/videos/download\<close>.
  \<^verbatim>\<open>mkdtempSync\<close> runs before the \<^verbatim>\<open>try\<close> block and makes a directory that was not
  there before; a suffix under which the path is taken stands for a call that fails, and
  its exception leaves the handler. The state returned with a download is the one after
  the callback of \<^verbatim>\<open>res.download\<close> has removed archive and scratch directory.
\<close>

definition download :: "kind \<Rightarrow> config \<Rightarrow> export_env \<Rightarrow> state \<Rightarrow> state \<times> response" where
  "download k cfg e st =
     (let rows = query_newest_first (table k st)
      in if rows = [] then
           (st, Redirect (admin_page k) (Error (''No '' @ plural k @ '' to download.'')))
         else
           let tempDir = tempDir_of k cfg e;
               archivePath = archivePath_of k cfg e
           in if dirs st tempDir \<noteq> None \<or> tempDir \<in> files st then (st, Unhandled)
              else
                (case copy_files k cfg e tempDir rows (st\<lparr>dirs := (dirs st)(tempDir \<mapsto> {})\<rparr>, 0) of
                   Inl st2 \<Rightarrow>
                     (safeRemoveDir tempDir (safeUnlink archivePath st2),
                      Redirect (admin_page k) (Error zip_failed_message))
                 | Inr (st2, copiedCount) \<Rightarrow>
                     if copiedCount = 0 then
                       (safeUnlink archivePath (safeRemoveDir tempDir st2),
                        Redirect (admin_page k) (Error (Noun k @ '' files are missing on disk.'')))
                     else
                       (case zip_result e of
                          ZipFailed partial \<Rightarrow>
                            (safeRemoveDir tempDir
                               (safeUnlink archivePath
                                  (if partial then st2\<lparr>files := insert archivePath (files st2)\<rparr>
                                   else st2)),
                             Redirect (admin_page k) (Error zip_failed_message))
                        | ZipOk \<Rightarrow>
                            (safeRemoveDir tempDir
                               (safeUnlink archivePath
                                  (st2\<lparr>files := insert archivePath (files st2)\<rparr>)),
                             Download archivePath
                               (''dan-abi-wedding-'' @ plural k @ ''-'' @ stamp e @ ''.zip'')
                               (case dirs st2 tempDir of None \<Rightarrow> {} | Some entries \<Rightarrow> entries)))))"

section \<open>Notions used in the statements\<close>

text \<open>
  The numeric strings, stated as the grammar states them: \<open>numeric_literal s\<close> says that
  \<open>s\<close> is a \<^verbatim>\<open>StringNumericLiteral\<close>. A string that begins with a character for which
  \<open>numeric_start\<close> fails (no digit, white space, sign, dot or \<^verbatim>\<open>I\<close>) is none.
\<close>

definition numeric_start :: "char \<Rightarrow> bool" where
  "numeric_start c \<longleftrightarrow> is_digit c \<or> is_space c \<or> c \<in> set ''+-.I''"

definition exponent_part :: "string \<Rightarrow> bool" where
  "exponent_part x \<longleftrightarrow>
     (\<exists>c sg ds. x = c # sg @ ds \<and> (c = CHR ''e'' \<or> c = CHR ''E'')
        \<and> (sg = [] \<or> sg = ''+'' \<or> sg = ''-'') \<and> ds \<noteq> [] \<and> list_all is_digit ds)"

definition unsigned_decimal :: "string \<Rightarrow> bool" where
  "unsigned_decimal u \<longleftrightarrow>
     u = ''Infinity''
     \<or> (\<exists>ip fp x. list_all is_digit ip \<and> list_all is_digit fp \<and> (x = [] \<or> exponent_part x)
           \<and> ((u = ip @ ''.'' @ fp @ x \<and> (ip \<noteq> [] \<or> fp \<noteq> [])) \<or> (u = ip @ x \<and> ip \<noteq> [])))"

definition non_decimal_integer :: "string \<Rightarrow> bool" where
  "non_decimal_integer t \<longleftrightarrow>
     (\<exists>p ds. t = CHR ''0'' # p # ds \<and> ds \<noteq> []
        \<and> (((p = CHR ''x'' \<or> p = CHR ''X'') \<and> set ds \<subseteq> set ''0123456789abcdefABCDEF'')
           \<or> ((p = CHR ''o'' \<or> p = CHR ''O'') \<and> set ds \<subseteq> set ''01234567'')
           \<or> ((p = CHR ''b'' \<or> p = CHR ''B'') \<and> set ds \<subseteq> set ''01'')))"

definition numeric_literal :: "string \<Rightarrow> bool" where
  "numeric_literal s \<longleftrightarrow>
     (\<exists>before body after. s = before @ body @ after
        \<and> list_all is_space before \<and> list_all is_space after
        \<and> (body = [] \<or> non_decimal_integer body \<or> unsigned_decimal body
           \<or> (\<exists>u. (body = CHR ''+'' # u \<or> body = CHR ''-'' # u) \<and> unsigned_decimal u)))"

text \<open>
  A string is single-spaced when every white-space character in it is a plain space that is
  not followed by white space.
\<close>

fun single_spaced :: "string \<Rightarrow> bool" where
  "single_spaced [] = True"
| "single_spaced [c] = (is_space c \<longrightarrow> c = CHR '' '')"
| "single_spaced (c # d # cs) =
     ((is_space c \<longrightarrow> c = CHR '' '' \<and> \<not> is_space d) \<and> single_spaced (d # cs))"

text \<open>The number a staged name starts with.\<close>

definition staged_number :: "string \<Rightarrow> nat" where
  "staged_number name = decimal (takeWhile is_digit name)"

text \<open>No uploader is without a photo or a video.\<close>

definition no_orphans :: "state \<Rightarrow> bool" where
  "no_orphans st \<longleftrightarrow>
     (\<forall>u \<in> set (uploaders st). \<exists>m \<in> set (photos st) \<union> set (videos st). uploader_id m = u_id u)"

text \<open>
  The local variables of the upload handler as functions of request and state: the
  uploader the name resolves to, the state after resolving it, the number of files
  allowed now, and the two slices of the batch.
\<close>

definition resolved :: "upload_request \<Rightarrow> state \<Rightarrow> uploader" where
  "resolved req st = snd (getOrCreateUploader (trim (req_name req)) st)"

definition after_resolve :: "upload_request \<Rightarrow> state \<Rightarrow> state" where
  "after_resolve req st = fst (getOrCreateUploader (trim (req_name req)) st)"

definition allowed_for :: "kind \<Rightarrow> config \<Rightarrow> upload_request \<Rightarrow> state \<Rightarrow> jsnum" where
  "allowed_for k cfg req st = allowedNow k cfg (u_id (resolved req st)) (after_resolve req st)"

definition acceptedFiles :: "kind \<Rightarrow> config \<Rightarrow> upload_request \<Rightarrow> state \<Rightarrow> upfile list" where
  "acceptedFiles k cfg req st = slice_to (req_files req) (allowed_for k cfg req st)"

definition rejectedFiles :: "kind \<Rightarrow> config \<Rightarrow> upload_request \<Rightarrow> state \<Rightarrow> upfile list" where
  "rejectedFiles k cfg req st = slice_from (req_files req) (allowed_for k cfg req st)"

definition other :: "kind \<Rightarrow> kind" where
  "other k = (case k of Photo \<Rightarrow> Video | Video \<Rightarrow> Photo)"

text \<open>
  The outcome of an export as a decision table over the state it starts from: no record;
  the scratch name taken; a copy that fails; no file present; the result of \<^verbatim>\<open>zip\<close>.
  It is proved below to be the response of \<^const>\<open>download\<close>.
\<close>

definition export_outcome :: "kind \<Rightarrow> config \<Rightarrow> export_env \<Rightarrow> state \<Rightarrow> response" where
  "export_outcome k cfg e st =
     (if table k st = [] then
        Redirect (admin_page k) (Error (''No '' @ plural k @ '' to download.''))
      else if dirs st (tempDir_of k cfg e) \<noteq> None \<or> tempDir_of k cfg e \<in> files st then Unhandled
      else if list_ex (\<lambda>m. present cfg st m \<and> \<not> copy_ok e (path_join (uploadDir cfg) (filename m)))
                (table k st)
        then Redirect (admin_page k) (Error zip_failed_message)
      else if \<not> list_ex (present cfg st) (table k st) then
        Redirect (admin_page k) (Error (Noun k @ '' files are missing on disk.''))
      else
        (case zip_result e of
           ZipFailed partial \<Rightarrow> Redirect (admin_page k) (Error zip_failed_message)
         | ZipOk \<Rightarrow>
             Download (archivePath_of k cfg e)
               (''dan-abi-wedding-'' @ plural k @ ''-'' @ stamp e @ ''.zip'')
               (stagedName k ` {m \<in> set (table k st). present cfg st m})))"

section \<open>Example data\<close>

text \<open>
  A small installation for the concrete instances: an empty store with four uploaded files
  on disk, limits of two videos per person and three videos in all, and file objects as
  multer hands them over (\<open>ex_broken\<close> lacks its \<^verbatim>\<open>filename\<close>).
\<close>

definition ex_empty :: state where
  "ex_empty = \<lparr>uploaders = [], uploaders_seq = 0, photos = [], photos_seq = 0, videos = [],
     videos_seq = 0, files = {''up/a'', ''up/b'', ''up/c'', ''up/x''}, dirs = (\<lambda>_. None)\<rparr>"

definition ex_cfg :: config where
  "ex_cfg = \<lparr>videos_per_person = Num 2, total_videos = Num 3, uploadDir = ''up'',
     tmpdir = ''tmp''\<rparr>"

definition ex_a :: upfile where
  "ex_a = \<lparr>path = ''up/a'', file_name = Some ''a'', originalname = ''first.mp4'',
     mimetype = ''video/mp4'', file_size = 10\<rparr>"

definition ex_b :: upfile where
  "ex_b = \<lparr>path = ''up/b'', file_name = Some ''b'', originalname = ''second.mp4'',
     mimetype = ''video/mp4'', file_size = 20\<rparr>"

definition ex_c :: upfile where
  "ex_c = \<lparr>path = ''up/c'', file_name = Some ''c'', originalname = ''third.mp4'',
     mimetype = ''video/mp4'', file_size = 30\<rparr>"

definition ex_broken :: upfile where
  "ex_broken = \<lparr>path = ''up/x'', file_name = None, originalname = ''broken.mp4'',
     mimetype = ''video/mp4'', file_size = 40\<rparr>"

definition ex_alice_row :: uploader where
  "ex_alice_row = \<lparr>u_id = 1, u_name = ''Alice'', normalized_name = ''alice''\<rparr>"

definition ex_bob_row :: uploader where
  "ex_bob_row = \<lparr>u_id = 2, u_name = ''Bob'', normalized_name = ''bob''\<rparr>"

definition ex_v1 :: media where
  "ex_v1 = \<lparr>m_id = 1, uploader_id = 1, filename = ''a'', original_name = ''first.mp4'',
     mime_type = ''video/mp4'', m_size = 10, uploaded_at = 100\<rparr>"

definition ex_v2 :: media where
  "ex_v2 = \<lparr>m_id = 2, uploader_id = 1, filename = ''b'', original_name = ''second.mp4'',
     mime_type = ''video/mp4'', m_size = 20, uploaded_at = 200\<rparr>"

definition ex_v3 :: media where
  "ex_v3 = \<lparr>m_id = 3, uploader_id = 2, filename = ''c'', original_name = ''third.mp4'',
     mime_type = ''video/mp4'', m_size = 30, uploaded_at = 300\<rparr>"

text \<open>
  \<open>ex_alice\<close>: Alice has reached her two videos and one place is left in the gallery.
  \<open>ex_full\<close>: Bob's video has taken the last place.
\<close>

definition ex_alice :: state where
  "ex_alice = \<lparr>uploaders = [ex_alice_row], uploaders_seq = 1, photos = [], photos_seq = 0,
     videos = [ex_v1, ex_v2], videos_seq = 2, files = {''up/a'', ''up/b'', ''up/x''},
     dirs = (\<lambda>_. None)\<rparr>"

definition ex_full :: state where
  "ex_full = \<lparr>uploaders = [ex_alice_row, ex_bob_row], uploaders_seq = 2, photos = [],
     photos_seq = 0, videos = [ex_v1, ex_v2, ex_v3], videos_seq = 3,
     files = {''up/a'', ''up/b'', ''up/c'', ''up/x''}, dirs = (\<lambda>_. None)\<rparr>"

definition ex_missing :: state where
  "ex_missing = ex_alice\<lparr>files := {''up/x''}\<rparr>"

definition ex_env :: "zip_outcome \<Rightarrow> export_env" where
  "ex_env z = \<lparr>tmp_suffix = ''AbC123'', now_ms = 42, stamp = ''2024-06-01'',
     copy_ok = (\<lambda>_. True), zip_result = z\<rparr>"


definition ex_request :: "string \<Rightarrow> upfile list \<Rightarrow> upload_request" where
  "ex_request name fs = \<lparr>req_name = name, req_files = fs, req_now = 100\<rparr>"

section \<open>The archive-name sanitizer is idempotent\<close>

lemma is_space_not_unsafe: "is_space c \<Longrightarrow> \<not> unsafe_char c"
  by (auto simp: is_space_def unsafe_char_def)

lemma space_is_space: "is_space (CHR '' '')"
  by (simp add: is_space_def)

lemma single_spaced_collapse: "single_spaced (collapse_spaces s)"
proof (induction s rule: collapse_spaces.induct)
  case 1
  show ?case by simp
next
  case (2 c cs)
  show ?case
  proof (cases "is_space c")
    case True
    let ?r = "dropWhile is_space cs"
    have ih: "single_spaced (collapse_spaces ?r)" using 2(1) True by simp
    show ?thesis
    proof (cases ?r)
      case Nil
      then have "collapse_spaces ?r = []" by (simp only: collapse_spaces.simps)
      then show ?thesis using True by simp
    next
      case (Cons d ds)
      then have nd: "\<not> is_space d" using hd_dropWhile[of is_space cs] by simp
      have "collapse_spaces ?r = d # collapse_spaces ds"
        using nd by (simp only: Cons collapse_spaces.simps if_False)
      then show ?thesis using True ih nd by simp
    qed
  next
    case False
    have ih: "single_spaced (collapse_spaces cs)" using 2(2) False by simp
    show ?thesis using False ih by (cases "collapse_spaces cs") simp_all
  qed
qed

lemma collapse_fixed: "single_spaced s \<Longrightarrow> collapse_spaces s = s"
  by (induction s rule: single_spaced.induct) auto

lemma single_spaced_suffix: "single_spaced (xs @ ys) \<Longrightarrow> single_spaced ys"
  by (induction xs) (auto elim: single_spaced.elims)

lemma single_spaced_prefix: "single_spaced (xs @ ys) \<Longrightarrow> single_spaced xs"
  by (induction xs rule: single_spaced.induct) (auto elim: single_spaced.elims)

lemma trim_prefix_suffix: "\<exists>xs ys. s = xs @ trim s @ ys"
proof -
  have a: "s = takeWhile is_space s @ dropWhile is_space s" by simp
  let ?d = "dropWhile is_space s"
  have "rev (takeWhile is_space (rev ?d) @ dropWhile is_space (rev ?d)) = ?d"
    by (simp only: takeWhile_dropWhile_id rev_rev_ident)
  then have b: "?d = trim s @ rev (takeWhile is_space (rev ?d))"
    by (simp only: rev_append trim_def)
  from a b have "s = takeWhile is_space s @ trim s @ rev (takeWhile is_space (rev ?d))"
    by simp
  then show ?thesis by blast
qed

lemma single_spaced_trim: "single_spaced s \<Longrightarrow> single_spaced (trim s)"
proof -
  assume h: "single_spaced s"
  obtain xs ys where e: "s = xs @ trim s @ ys" using trim_prefix_suffix by blast
  from h e have "single_spaced (trim s @ ys)" using single_spaced_suffix by metis
  then show ?thesis by (rule single_spaced_prefix)
qed

lemma set_trim: "set (trim s) \<subseteq> set s"
proof -
  obtain xs ys where e: "s = xs @ trim s @ ys" using trim_prefix_suffix by blast
  have "set (trim s) \<subseteq> set (xs @ trim s @ ys)" by auto
  then show ?thesis using e by simp
qed

lemma trim_no_lead: "trim s \<noteq> [] \<Longrightarrow> \<not> is_space (hd (trim s))"
proof -
  assume ne: "trim s \<noteq> []"
  let ?d = "dropWhile is_space s"
  let ?e = "dropWhile is_space (rev ?d)"
  have t: "trim s = rev ?e" by (simp add: trim_def)
  from ne t have ene: "?e \<noteq> []" by simp
  then have dne: "?d \<noteq> []" by (metis dropWhile.simps(1) rev.simps(1))
  have "rev (takeWhile is_space (rev ?d) @ ?e) = ?d"
    by (simp only: takeWhile_dropWhile_id rev_rev_ident)
  then have "?d = rev ?e @ rev (takeWhile is_space (rev ?d))"
    by (simp only: rev_append)
  then obtain zs where z: "?d = rev ?e @ zs" by blast
  have "hd ?d = hd (rev ?e)" using ene by (subst z) simp
  moreover have "\<not> is_space (hd ?d)" using dne by (rule hd_dropWhile)
  ultimately show ?thesis using t by simp
qed

lemma trim_no_trail: "trim s \<noteq> [] \<Longrightarrow> \<not> is_space (last (trim s))"
proof -
  assume ne: "trim s \<noteq> []"
  let ?e = "dropWhile is_space (rev (dropWhile is_space s))"
  have t: "trim s = rev ?e" by (simp add: trim_def)
  from ne t have ene: "?e \<noteq> []" by simp
  then have "\<not> is_space (hd ?e)" by (rule hd_dropWhile)
  then show ?thesis using t ene by (simp add: last_rev)
qed

lemma trim_fixed:
  assumes "s = [] \<or> (\<not> is_space (hd s) \<and> \<not> is_space (last s))"
  shows "trim s = s"
proof (cases s)
  case Nil
  then show ?thesis by (simp add: trim_def)
next
  case (Cons c cs)
  with assms have h: "\<not> is_space (hd s)" and l: "\<not> is_space (last s)" by auto
  have "dropWhile is_space s = s" using h Cons by simp
  moreover have "dropWhile is_space (rev s) = rev s"
  proof -
    have "s \<noteq> []" using Cons by simp
    then have "hd (rev s) = last s" by (simp add: hd_rev)
    then have "\<not> is_space (hd (rev s))" using l by simp
    then show ?thesis by (simp add: dropWhile_eq_self_iff)
  qed
  ultimately show ?thesis by (simp add: trim_def)
qed

lemma trim_idem: "trim (trim s) = trim s"
  by (rule trim_fixed) (use trim_no_lead trim_no_trail in blast)

lemma replace_unsafe_fixed: "\<forall>c\<in>set s. \<not> unsafe_char c \<Longrightarrow> replace_unsafe s = s"
  by (induction s) (auto simp: replace_unsafe_def)

lemma set_collapse: "set (collapse_spaces s) \<subseteq> insert (CHR '' '') (set s)"
proof (induction s rule: collapse_spaces.induct)
  case 1
  show ?case by simp
next
  case (2 c cs)
  show ?case
  proof (cases "is_space c")
    case True
    then have "set (collapse_spaces (dropWhile is_space cs))
                 \<subseteq> insert (CHR '' '') (set (dropWhile is_space cs))" using 2(1) by simp
    moreover have "set (dropWhile is_space cs) \<subseteq> set cs" using set_dropWhileD by fastforce
    ultimately show ?thesis using True by auto
  next
    case False
    then show ?thesis using 2(2) by auto
  qed
qed

lemma sanitize_no_unsafe: "c \<in> set (sanitizeArchiveFilename s) \<Longrightarrow> \<not> unsafe_char c"
proof -
  assume "c \<in> set (sanitizeArchiveFilename s)"
  then have "c \<in> set (collapse_spaces (replace_unsafe s))"
    using set_trim by (auto simp: sanitizeArchiveFilename_def)
  then have "c = CHR '' '' \<or> c \<in> set (replace_unsafe s)" using set_collapse by auto
  then show ?thesis by (auto simp: replace_unsafe_def unsafe_char_def)
qed

lemma sanitize_single_spaced: "single_spaced (sanitizeArchiveFilename s)"
  unfolding sanitizeArchiveFilename_def by (intro single_spaced_trim single_spaced_collapse)

text \<open>
  C10. Sanitizing an archive file name twice gives what sanitizing it once gives: the
  result of one pass has none of the replaced characters, its white space is single plain
  spaces, none of them at either end, and such a string is left as it is.
\<close>

theorem sanitizeArchiveFilename_idempotent:
  "sanitizeArchiveFilename (sanitizeArchiveFilename s) = sanitizeArchiveFilename s
   \<and> (\<forall>c \<in> set (sanitizeArchiveFilename s). \<not> unsafe_char c)
   \<and> single_spaced (sanitizeArchiveFilename s)"
proof -
  let ?t = "sanitizeArchiveFilename s"
  have 1: "replace_unsafe ?t = ?t" using sanitize_no_unsafe by (intro replace_unsafe_fixed) blast
  have 2: "collapse_spaces ?t = ?t" using sanitize_single_spaced by (rule collapse_fixed)
  have 3: "trim ?t = ?t" unfolding sanitizeArchiveFilename_def by (rule trim_idem)
  have "sanitizeArchiveFilename ?t = ?t"
    by (subst (1) sanitizeArchiveFilename_def) (simp only: 1 2 3)
  then show ?thesis using sanitize_no_unsafe sanitize_single_spaced by blast
qed

theorem sanitizeArchiveFilename_idempotent_witness:
  "sanitizeArchiveFilename ''  a/b   c:d  '' = ''a-b c-d''
   \<and> sanitizeArchiveFilename ''a-b c-d'' = ''a-b c-d''"
proof -
  have e: "sanitizeArchiveFilename ''  a/b   c:d  '' = ''a-b c-d''" by code_simp
  from sanitizeArchiveFilename_idempotent[of "''  a/b   c:d  ''"] show ?thesis
    unfolding e by blast
qed

section \<open>Decimal numerals and stored file names\<close>

lemma below_ten: "d < (10::nat) \<Longrightarrow> d \<in> set [0,1,2,3,4,5,6,7,8,9]"
  by (simp del: One_nat_def) arith

lemma digit_value_digit_char: "d < 10 \<Longrightarrow> digit_value (digit_char d) = d"
  using below_ten[of d] by (auto simp: digit_value_def digit_char_def)

lemma is_digit_digit_char: "d < 10 \<Longrightarrow> is_digit (digit_char d)"
  by (simp add: is_digit_def digit_char_def del: set_simps)

lemma digits_all_digit: "c \<in> set (digits n) \<Longrightarrow> is_digit c"
proof (induction n rule: digits.induct)
  case (1 n)
  show ?case
  proof (cases "n < 10")
    case True
    then show ?thesis using 1(2) by (simp add: digits.simps[of n] is_digit_digit_char)
  next
    case False
    then have "c = digit_char (n mod 10) \<or> c \<in> set (digits (n div 10))"
      using 1(2) by (simp add: digits.simps[of n])
    then show ?thesis using 1(1) False by (auto simp: is_digit_digit_char)
  qed
qed

lemma digits_nonempty: "digits n \<noteq> []"
  by (subst digits.simps) simp

lemma decimal_snoc: "decimal (s @ [c]) = 10 * decimal s + digit_value c"
  by (simp add: decimal_def)

lemma decimal_digits: "decimal (digits n) = n"
proof (induction n rule: digits.induct)
  case (1 n)
  show ?case
  proof (cases "n < 10")
    case True
    then show ?thesis by (simp add: digits.simps[of n] decimal_def digit_value_digit_char)
  next
    case False
    then have "decimal (digits (n div 10)) = n div 10" using 1 by simp
    then show ?thesis using False
      by (simp add: digits.simps[of n] decimal_snoc digit_value_digit_char)
  qed
qed

lemma decimal_zeros: "decimal (replicate k (CHR ''0'') @ s) = decimal s"
proof (induction k)
  case 0
  show ?case by simp
next
  case (Suc k)
  have "foldl (\<lambda>a c. 10 * a + digit_value c) 0 (CHR ''0'' # replicate k (CHR ''0'') @ s)
        = foldl (\<lambda>a c. 10 * a + digit_value c) 0 (replicate k (CHR ''0'') @ s)"
    by (simp add: digit_value_def)
  then show ?case using Suc by (simp add: decimal_def)
qed

lemma decimal_padStart: "decimal (padStart n (CHR ''0'') (digits k)) = k"
  by (simp add: padStart_def decimal_zeros decimal_digits)

lemma is_digit_zero: "is_digit (CHR ''0'')"
  by (simp add: is_digit_def)

lemma padStart_all_digit:
  assumes "c \<in> set (padStart n (CHR ''0'') (digits k))"
  shows "is_digit c"
proof -
  from assms have "c = CHR ''0'' \<or> c \<in> set (digits k)"
    by (auto simp: padStart_def split: if_splits)
  then show ?thesis using is_digit_zero digits_all_digit by blast
qed

lemma digits_then_rest:
  assumes "\<forall>c\<in>set ds. is_digit c" and "rest = [] \<or> \<not> is_digit (hd rest)"
  shows "takeWhile is_digit (ds @ rest) = ds" and "dropWhile is_digit (ds @ rest) = rest"
proof -
  have a: "takeWhile is_digit rest = []" using assms(2) by (cases rest) auto
  have b: "dropWhile is_digit rest = rest" using assms(2) by (cases rest) auto
  show "takeWhile is_digit (ds @ rest) = ds" using assms(1) a by (simp add: takeWhile_append2)
  show "dropWhile is_digit (ds @ rest) = rest" using assms(1) b by (simp add: dropWhile_append2)
qed

lemma not_digit_dash: "\<not> is_digit (CHR ''-'')" and not_digit_dot: "\<not> is_digit (CHR ''.'')"
  by (simp_all add: is_digit_def)

lemma extname_shape: "extname p = [] \<or> hd (extname p) = CHR ''.''"
  by (simp add: extname_def Let_def)

lemma extname_no_slash: "CHR ''/'' \<notin> set (extname p)"
proof -
  let ?trimmed = "rev (dropWhile (\<lambda>c. c = CHR ''/'') (rev p))"
  let ?base = "rev (takeWhile (\<lambda>c. c \<noteq> CHR ''/'') (rev ?trimmed))"
  let ?after = "rev (takeWhile (\<lambda>c. c \<noteq> CHR ''.'') (rev ?base))"
  have "CHR ''/'' \<notin> set ?base" using set_takeWhileD[of "CHR ''/''" "\<lambda>c. c \<noteq> CHR ''/''"] by auto
  moreover have "set ?after \<subseteq> set ?base" using set_takeWhileD by fastforce
  ultimately have "CHR ''/'' \<notin> set ?after" by blast
  then show ?thesis by (simp add: extname_def Let_def)
qed

lemma storageFilename_parts:
  "takeWhile is_digit (storageFilename t r f) = digits t"
  "takeWhile is_digit (tl (dropWhile is_digit (storageFilename t r f))) = digits r"
  "dropWhile is_digit (tl (dropWhile is_digit (storageFilename t r f))) = extname (originalname f)"
proof -
  let ?e = "extname (originalname f)"
  have sf: "storageFilename t r f = digits t @ (CHR ''-'' # digits r @ ?e)"
    by (simp add: storageFilename_def Let_def)
  have d1: "\<forall>c\<in>set (digits t). is_digit c" and d2: "\<forall>c\<in>set (digits r). is_digit c"
    using digits_all_digit by blast+
  have r1: "(CHR ''-'' # digits r @ ?e) = [] \<or> \<not> is_digit (hd (CHR ''-'' # digits r @ ?e))"
    by (simp add: not_digit_dash)
  have r2: "?e = [] \<or> \<not> is_digit (hd ?e)" using extname_shape[of "originalname f"] not_digit_dot by auto
  show "takeWhile is_digit (storageFilename t r f) = digits t"
    unfolding sf using digits_then_rest(1)[OF d1 r1] .
  have dr: "dropWhile is_digit (storageFilename t r f) = CHR ''-'' # digits r @ ?e"
    unfolding sf using digits_then_rest(2)[OF d1 r1] .
  show "takeWhile is_digit (tl (dropWhile is_digit (storageFilename t r f))) = digits r"
    unfolding dr using digits_then_rest(1)[OF d2 r2] by simp
  show "dropWhile is_digit (tl (dropWhile is_digit (storageFilename t r f))) = ?e"
    unfolding dr using digits_then_rest(2)[OF d2 r2] by simp
qed

lemma digits_inj: "digits a = digits b \<Longrightarrow> a = b"
  using decimal_digits by metis

text \<open>
  C9, as amended. The stored name is the time stamp, a hyphen, the random number and the
  extension of the original name. Two stored names are equal exactly when time stamp,
  random number and extension are all equal, so the original name enters through its
  extension only; and a stored name has no path separator.
\<close>

theorem storageFilename_collision:
  "(storageFilename t r f = storageFilename t' r' f'
      \<longleftrightarrow> t = t' \<and> r = r' \<and> extname (originalname f) = extname (originalname f'))
   \<and> CHR ''/'' \<notin> set (storageFilename t r f)"
proof -
  have "t = t' \<and> r = r' \<and> extname (originalname f) = extname (originalname f')"
    if eq: "storageFilename t r f = storageFilename t' r' f'"
  proof -
    have "digits t = digits t'" using storageFilename_parts(1)[of t r f] storageFilename_parts(1)[of t' r' f'] eq by simp
    moreover have "digits r = digits r'" using storageFilename_parts(2)[of t r f] storageFilename_parts(2)[of t' r' f'] eq by simp
    moreover have "extname (originalname f) = extname (originalname f')"
      using storageFilename_parts(3)[of t r f] storageFilename_parts(3)[of t' r' f'] eq by simp
    ultimately show ?thesis using digits_inj by blast
  qed
  moreover have "storageFilename t r f = storageFilename t' r' f'"
    if "t = t' \<and> r = r' \<and> extname (originalname f) = extname (originalname f')"
    using that by (simp add: storageFilename_def)
  moreover have "CHR ''/'' \<notin> set (storageFilename t r f)"
  proof -
    have "is_digit c \<Longrightarrow> c \<noteq> CHR ''/''" for c by (auto simp: is_digit_def)
    then have "CHR ''/'' \<notin> set (digits n)" for n using digits_all_digit by blast
    then show ?thesis using extname_no_slash by (simp add: storageFilename_def Let_def)
  qed
  ultimately show ?thesis by blast
qed

theorem storageFilename_collision_witness:
  "storageFilename 5 7 \<lparr>path = ''up/x'', file_name = None, originalname = ''../../a.jpg'',
       mimetype = ''image/jpeg'', file_size = 1\<rparr> = ''5-7.jpg''
   \<and> storageFilename 5 8 \<lparr>path = ''up/y'', file_name = None, originalname = ''../../a.jpg'',
       mimetype = ''image/jpeg'', file_size = 1\<rparr> \<noteq> ''5-7.jpg''
   \<and> CHR ''/'' \<notin> set ''5-7.jpg''"
proof -
  let ?f = "\<lparr>path = ''up/x'', file_name = None, originalname = ''../../a.jpg'',
       mimetype = ''image/jpeg'', file_size = 1\<rparr>"
  let ?g = "\<lparr>path = ''up/y'', file_name = None, originalname = ''../../a.jpg'',
       mimetype = ''image/jpeg'', file_size = 1\<rparr>"
  have e: "storageFilename 5 7 ?f = ''5-7.jpg''" by code_simp
  have "storageFilename 5 8 ?g \<noteq> storageFilename 5 7 ?f"
    using storageFilename_collision[of 5 8 ?g 5 7 ?f] by simp
  moreover have "CHR ''/'' \<notin> set (storageFilename 5 7 ?f)"
    using storageFilename_collision[of 5 7 ?f 5 7 ?f] by blast
  ultimately show ?thesis unfolding e by blast
qed

text \<open>
  C9 as stated fails in both halves: at one clock reading and one random number, two
  original names with different extensions get different stored names (the stored name
  depends on the original name), and two uploads whose original names share the extension
  get the same stored name (the stored name is not unique).
\<close>

theorem storageFilename_counterexample:
  "storageFilename 5 7 \<lparr>path = ''up/x'', file_name = None, originalname = ''a.jpg'',
       mimetype = ''image/jpeg'', file_size = 1\<rparr>
     \<noteq> storageFilename 5 7 \<lparr>path = ''up/x'', file_name = None, originalname = ''a.png'',
       mimetype = ''image/jpeg'', file_size = 1\<rparr>
   \<and> storageFilename 5 7 \<lparr>path = ''up/x'', file_name = None, originalname = ''a.jpg'',
       mimetype = ''image/jpeg'', file_size = 1\<rparr>
     = storageFilename 5 7 \<lparr>path = ''up/y'', file_name = None, originalname = ''b.jpg'',
       mimetype = ''image/jpeg'', file_size = 2\<rparr>"
  by code_simp

section \<open>Configuration values\<close>

subsection \<open>Integers up to \<open>2\<^sup>5\<^sup>3\<close> are doubles\<close>

lemma pow2_nonneg_exp: "0 \<le> k \<Longrightarrow> pow2 k = 2 ^ nat k"
  by (simp add: pow2_def)

lemma round_half_even_of_int: "round_half_even (of_int z) = z"
  by (simp add: round_half_even_def)

lemma bitlen_positive: "0 < z \<Longrightarrow> 1 \<le> bitlen z"
  using bitlen_bounds[of z] bitlen_nonneg[of z]
  by (cases "bitlen z = 0") auto

lemma floor_log2_of_nat:
  assumes "0 < n"
  shows "floor_log2 (of_nat n) = bitlen (int n) - 1"
proof -
  have "(of_nat n :: rat) = of_int (int n)" by simp
  then have q: "quotient_of (of_nat n :: rat) = (int n, 1)"
    by (simp only: quotient_of_rat_of_int)
  have b1: "bitlen 1 = 1" by (simp add: bitlen_alt_def)
  have pos: "0 < int n" using assms by simp
  have ge: "1 \<le> bitlen (int n)" using pos by (rule bitlen_positive)
  have "(2::int) ^ nat (bitlen (int n) - 1) \<le> int n" using bitlen_bounds[OF pos] by blast
  then have "(of_int ((2::int) ^ nat (bitlen (int n) - 1)) :: rat) \<le> of_int (int n)"
    by (simp only: of_int_le_iff)
  then have "pow2 (bitlen (int n) - 1) \<le> of_nat n" using ge by (simp add: pow2_nonneg_exp)
  then show ?thesis by (simp add: floor_log2_def q b1)
qed

lemma nearest_double_exact:
  assumes "n \<le> 2 ^ 53"
  shows "nearest_double (of_nat n) = of_nat n"
proof (cases "n = 0")
  case True
  then show ?thesis by (simp add: nearest_double_def)
next
  case False
  then have pos: "0 < n" by simp
  let ?b = "bitlen (int n)"
  have ipos: "0 < int n" using pos by simp
  have ge: "1 \<le> ?b" using ipos by (rule bitlen_positive)
  have "2 ^ 53 < (2::nat) ^ 54" by (rule power_strict_increasing) simp_all
  with assms have "n < 2 ^ 54" by (rule le_less_trans)
  then have le: "?b \<le> 54" using less_power_nat_iff_bitlen[of n 54] by simp
  define q where "q = max (?b - 1 - 52) (- 1074)"
  have qv: "q = ?b - 53" using ge by (simp add: q_def)
  have nz: "(of_nat n :: rat) \<noteq> 0" using pos by simp
  have nd: "nearest_double (of_nat n) = of_int (round_half_even (of_nat n / pow2 q)) * pow2 q"
    unfolding nearest_double_def floor_log2_of_nat[OF pos] q_def Let_def using nz by simp
  show ?thesis
  proof (cases "q \<le> 0")
    case True
    then have p: "pow2 q = 1 / 2 ^ nat (- q)" by (cases "q = 0") (simp_all add: pow2_def)
    have "of_nat n / pow2 q = (of_int (int n * 2 ^ nat (- q)) :: rat)" by (simp add: p)
    then have "round_half_even (of_nat n / pow2 q) = int n * 2 ^ nat (- q)"
      by (simp only: round_half_even_of_int)
    then show ?thesis by (simp add: nd p)
  next
    case False
    then have q1: "q = 1" using qv le by simp
    then have b54: "?b = 54" using qv by simp
    have "(2::int) ^ nat (?b - 1) \<le> int n" using bitlen_bounds[OF ipos] by blast
    then have "(2::int) ^ 53 \<le> int n" by (simp only: b54) simp
    then have "int ((2::nat) ^ 53) \<le> int n" by simp
    then have "(2::nat) ^ 53 \<le> n" by (simp only: of_nat_le_iff)
    then have n53: "n = 2 ^ 53" using assms by (rule le_antisym[rotated])
    have p1: "pow2 1 = 2" by (simp add: pow2_def)
    have "(of_nat n :: rat) = 2 ^ 53" by (simp only: n53 of_nat_power of_nat_numeral)
    also have "\<dots> = 2 ^ 52 * 2" by (simp only: power_Suc2[symmetric]) simp
    finally have e: "(of_nat n :: rat) = of_int (2 ^ 52) * 2" by simp
    then have "of_nat n / pow2 q = (of_int (2 ^ 52) :: rat)" by (simp add: q1 p1)
    then have r: "round_half_even (of_nat n / pow2 q) = 2 ^ 52"
      by (simp only: round_half_even_of_int)
    have "nearest_double (of_nat n) = of_int (2 ^ 52) * pow2 q" by (simp only: nd r)
    also have "\<dots> = of_nat n" by (simp only: q1 p1 e)
    finally show ?thesis .
  qed
qed

lemma to_double_exact:
  assumes "n \<le> 2 ^ 53"
  shows "to_double False (of_nat n) = Finite (of_nat n)"
proof -
  have "int n \<le> int (2 ^ 53)" using assms by (simp only: of_nat_le_iff)
  then have "(of_int (int n) :: rat) \<le> of_int (int (2 ^ 53))" by (simp only: of_int_le_iff)
  then have a: "(of_nat n :: rat) \<le> 2 ^ 53" by simp
  have b: "(2::rat) ^ 53 < 2 ^ 1024" by (rule power_strict_increasing) simp_all
  have p: "pow2 1024 = 2 ^ 1024" by (simp add: pow2_def)
  from a b have "(of_nat n :: rat) < 2 ^ 1024" by (rule le_less_trans)
  then have "\<not> pow2 1024 \<le> (of_nat n :: rat)" by (simp only: p not_le)
  then show ?thesis by (simp add: to_double_def Let_def nearest_double_exact[OF assms])
qed

lemma to_double_not_NaN: "to_double negative m \<noteq> NotANumber"
  by (simp add: to_double_def Let_def)

lemma StringNumericValue_not_NaN: "StringNumericValue l \<noteq> NotANumber"
  by (cases l) (simp_all add: to_double_not_NaN)

lemma Number_NaN_iff: "Number s = NotANumber \<longleftrightarrow> StringNumericLiteral s = None"
  by (simp add: Number_def StringNumericValue_not_NaN split: option.split)

subsection \<open>The reader accepts exactly the numeric strings\<close>

lemma digit_not_space: "is_digit c \<Longrightarrow> \<not> is_space c"
  by (auto simp: is_digit_def is_space_def)

lemma digit_not_symbol: "is_digit c \<Longrightarrow> c \<notin> set ''eE+-.IxXoObB''"
  by (auto simp: is_digit_def)

lemma digit_not_letter:
  "is_digit c \<Longrightarrow> c \<noteq> CHR ''e'' \<and> c \<noteq> CHR ''E'' \<and> c \<noteq> CHR ''+'' \<and> c \<noteq> CHR ''-'' \<and> c \<noteq> CHR ''.''
     \<and> c \<noteq> CHR ''I'' \<and> radix_of c = None"
  using digit_not_symbol[of c] by (simp add: radix_of_def)

lemma ExponentPart_iff: "ExponentPart x \<noteq> None \<longleftrightarrow> x = [] \<or> exponent_part x"
proof
  assume h: "ExponentPart x \<noteq> None"
  show "x = [] \<or> exponent_part x"
  proof (cases x)
    case Nil
    then show ?thesis by simp
  next
    case (Cons c cs)
    with h have c: "c = CHR ''e'' \<or> c = CHR ''E''"
      by (auto simp: ExponentPart_def split: if_splits)
    with h Cons obtain s ds where cs: "cs = s # ds"
      by (cases cs) (auto simp: ExponentPart_def)
    consider (plus) "s = CHR ''+''" | (minus) "s = CHR ''-''" | (none) "s \<noteq> CHR ''+''" "s \<noteq> CHR ''-''"
      by blast
    then have "\<exists>sg ds'. cs = sg @ ds' \<and> (sg = [] \<or> sg = ''+'' \<or> sg = ''-'') \<and> ds' \<noteq> [] \<and> list_all is_digit ds'"
    proof cases
      case plus
      with h Cons c cs have "DecimalDigits ds" by (auto simp: ExponentPart_def split: if_splits)
      then have "cs = ''+'' @ ds \<and> ds \<noteq> [] \<and> list_all is_digit ds"
        using cs plus by (simp add: DecimalDigits_def)
      then show ?thesis by blast
    next
      case minus
      with h Cons c cs have "DecimalDigits ds" by (auto simp: ExponentPart_def split: if_splits)
      then have "cs = ''-'' @ ds \<and> ds \<noteq> [] \<and> list_all is_digit ds"
        using cs minus by (simp add: DecimalDigits_def)
      then show ?thesis by blast
    next
      case none
      with h Cons c cs have "DecimalDigits cs" by (auto simp: ExponentPart_def split: if_splits)
      then have "cs = [] @ cs \<and> cs \<noteq> [] \<and> list_all is_digit cs"
        by (simp add: DecimalDigits_def)
      then show ?thesis by blast
    qed
    then show ?thesis using Cons c unfolding exponent_part_def by blast
  qed
next
  assume "x = [] \<or> exponent_part x"
  then show "ExponentPart x \<noteq> None"
  proof
    assume "x = []"
    then show ?thesis by (simp add: ExponentPart_def)
  next
    assume "exponent_part x"
    then obtain c sg ds where x: "x = c # sg @ ds" and c: "c = CHR ''e'' \<or> c = CHR ''E''"
      and sg: "sg = [] \<or> sg = ''+'' \<or> sg = ''-''" and ds: "ds \<noteq> []" "list_all is_digit ds"
      unfolding exponent_part_def by blast
    from ds obtain d ds' where d: "ds = d # ds'" "is_digit d" by (cases ds) auto
    have dd: "DecimalDigits ds" using ds by (simp add: DecimalDigits_def)
    from sg show ?thesis
    proof (elim disjE)
      assume "sg = []"
      then show ?thesis using x c d dd digit_not_letter[OF d(2)]
        by (auto simp: ExponentPart_def)
    next
      assume "sg = ''+''"
      then show ?thesis using x c dd by (auto simp: ExponentPart_def)
    next
      assume "sg = ''-''"
      then show ?thesis using x c dd by (auto simp: ExponentPart_def)
    qed
  qed
qed

lemma exponent_part_hd: "exponent_part x \<Longrightarrow> x \<noteq> [] \<and> \<not> is_digit (hd x) \<and> hd x \<noteq> CHR ''.''"
  by (auto simp: exponent_part_def is_digit_def)

lemma StrUnsignedDecimalLiteral_parts:
  assumes ip: "list_all is_digit ip" and fp: "list_all is_digit fp"
    and x: "x = [] \<or> exponent_part x"
  shows "ip \<noteq> [] \<or> fp \<noteq> [] \<Longrightarrow> StrUnsignedDecimalLiteral negative (ip @ ''.'' @ fp @ x) \<noteq> None"
    and "ip \<noteq> [] \<Longrightarrow> StrUnsignedDecimalLiteral negative (ip @ x) \<noteq> None"
proof -
  have xh: "x = [] \<or> \<not> is_digit (hd x)" using x exponent_part_hd by blast
  have xd: "(x \<noteq> [] \<and> hd x = CHR ''.'') = False" using x exponent_part_hd by blast
  have "ExponentPart x \<noteq> None" using x by (simp only: ExponentPart_iff)
  then obtain v where ex: "ExponentPart x = Some v" by blast
  have ipa: "\<forall>c\<in>set ip. is_digit c" and fpa: "\<forall>c\<in>set fp. is_digit c"
    using ip fp by (simp_all add: list_all_iff)
  have nd: "\<not> is_digit (CHR ''.'')" by (simp add: is_digit_def)
  {
    assume ne: "ip \<noteq> [] \<or> fp \<noteq> []"
    let ?u = "ip @ ''.'' @ fp @ x"
    have t1: "takeWhile is_digit ?u = ip" by (rule digits_then_rest(1)[OF ipa]) (simp add: nd)
    have d1: "dropWhile is_digit ?u = ''.'' @ fp @ x" by (rule digits_then_rest(2)[OF ipa]) (simp add: nd)
    have t2: "takeWhile is_digit (fp @ x) = fp" by (rule digits_then_rest(1)[OF fpa xh])
    have d2: "dropWhile is_digit (fp @ x) = x" by (rule digits_then_rest(2)[OF fpa xh])
    show "StrUnsignedDecimalLiteral negative ?u \<noteq> None"
      unfolding StrUnsignedDecimalLiteral_def Let_def t1 d1
      using ne by (simp add: t2 d2 ex)
  }
  {
    assume ne: "ip \<noteq> []"
    have t1: "takeWhile is_digit (ip @ x) = ip" by (rule digits_then_rest(1)[OF ipa xh])
    have d1: "dropWhile is_digit (ip @ x) = x" by (rule digits_then_rest(2)[OF ipa xh])
    show "StrUnsignedDecimalLiteral negative (ip @ x) \<noteq> None"
      unfolding StrUnsignedDecimalLiteral_def Let_def t1 d1
      using ne by (simp only: xd if_False ex) simp
  }
qed

lemma StrUnsignedDecimalLiteral_iff:
  "StrUnsignedDecimalLiteral negative u \<noteq> None \<longleftrightarrow> unsigned_decimal u"
proof
  assume h: "StrUnsignedDecimalLiteral negative u \<noteq> None"
  show "unsigned_decimal u"
  proof (cases "u = ''Infinity''")
    case True
    then show ?thesis by (simp add: unsigned_decimal_def)
  next
    case False
    define ip where "ip = takeWhile is_digit u"
    define r1 where "r1 = dropWhile is_digit u"
    have u: "u = ip @ r1" by (simp add: ip_def r1_def)
    have ipd: "list_all is_digit ip" unfolding ip_def list_all_iff using set_takeWhileD by fast
    show ?thesis
    proof (cases "r1 \<noteq> [] \<and> hd r1 = CHR ''.''")
      case True
      define fp where "fp = takeWhile is_digit (tl r1)"
      define r2 where "r2 = dropWhile is_digit (tl r1)"
      have r1: "r1 = ''.'' @ fp @ r2" using True by (cases r1) (simp_all add: fp_def r2_def)
      have fpd: "list_all is_digit fp" unfolding fp_def list_all_iff using set_takeWhileD by fast
      from h False True have ne: "ip \<noteq> [] \<or> fp \<noteq> []" and ex: "ExponentPart r2 \<noteq> None"
        unfolding StrUnsignedDecimalLiteral_def Let_def ip_def[symmetric] r1_def[symmetric]
        by (auto simp: fp_def[symmetric] r2_def[symmetric] split: if_splits option.splits)
      from ex have "r2 = [] \<or> exponent_part r2" by (simp only: ExponentPart_iff)
      then have "list_all is_digit ip \<and> list_all is_digit fp \<and> (r2 = [] \<or> exponent_part r2)
          \<and> ((u = ip @ ''.'' @ fp @ r2 \<and> (ip \<noteq> [] \<or> fp \<noteq> [])) \<or> (u = ip @ r2 \<and> ip \<noteq> []))"
        using ipd fpd ne u r1 by simp
      then show ?thesis unfolding unsigned_decimal_def by blast
    next
      case nodot: False
      from h False nodot have ne: "ip \<noteq> []" and ex: "ExponentPart r1 \<noteq> None"
        unfolding StrUnsignedDecimalLiteral_def Let_def ip_def[symmetric] r1_def[symmetric]
        by (auto split: if_splits option.splits)
      from ex have "r1 = [] \<or> exponent_part r1" by (simp only: ExponentPart_iff)
      then have "list_all is_digit ip \<and> list_all is_digit [] \<and> (r1 = [] \<or> exponent_part r1)
          \<and> ((u = ip @ ''.'' @ [] @ r1 \<and> (ip \<noteq> [] \<or> [] \<noteq> ([]::string))) \<or> (u = ip @ r1 \<and> ip \<noteq> []))"
        using ipd ne u by simp
      then show ?thesis unfolding unsigned_decimal_def by blast
    qed
  qed
next
  assume "unsigned_decimal u"
  then consider (inf) "u = ''Infinity''"
    | (frac) ip fp x where "list_all is_digit ip" "list_all is_digit fp" "x = [] \<or> exponent_part x"
        "u = ip @ ''.'' @ fp @ x" "ip \<noteq> [] \<or> fp \<noteq> []"
    | (whole) ip fp x where "list_all is_digit ip" "list_all is_digit fp" "x = [] \<or> exponent_part x"
        "u = ip @ x" "ip \<noteq> []"
    unfolding unsigned_decimal_def by blast
  then show "StrUnsignedDecimalLiteral negative u \<noteq> None"
  proof cases
    case inf
    then show ?thesis by (simp add: StrUnsignedDecimalLiteral_def Let_def)
  next
    case frac
    then show ?thesis using StrUnsignedDecimalLiteral_parts(1) by simp
  next
    case whole
    then show ?thesis using StrUnsignedDecimalLiteral_parts(2) by simp
  qed
qed

lemma radix_digit_16: "radix_digit 16 c \<longleftrightarrow> c \<in> set ''0123456789abcdefABCDEF''"
  by (auto simp: radix_digit_def is_digit_def)

lemma radix_digit_8: "radix_digit 8 c \<longleftrightarrow> c \<in> set ''01234567''"
proof
  assume "radix_digit 8 c"
  then have d: "c \<in> set ''0123456789''" and v: "digit_value c < 8"
    by (simp_all add: radix_digit_def is_digit_def)
  from d have "c \<in> set ''01234567'' \<or> c = CHR ''8'' \<or> c = CHR ''9''" by auto
  moreover have "\<not> digit_value (CHR ''8'') < 8" "\<not> digit_value (CHR ''9'') < 8"
    by (simp_all add: digit_value_def)
  ultimately show "c \<in> set ''01234567''" using v by blast
next
  assume "c \<in> set ''01234567''"
  then show "radix_digit 8 c" by (auto simp: radix_digit_def is_digit_def digit_value_def)
qed

lemma radix_digit_2: "radix_digit 2 c \<longleftrightarrow> c \<in> set ''01''"
proof
  assume "radix_digit 2 c"
  then have d: "c \<in> set ''0123456789''" and v: "digit_value c < 2"
    by (simp_all add: radix_digit_def is_digit_def)
  from d have "c \<in> set ''01'' \<or> c \<in> set ''23456789''" by auto
  moreover have "\<forall>d\<in>set ''23456789''. \<not> digit_value d < 2"
    by (simp add: digit_value_def)
  ultimately show "c \<in> set ''01''" using v by blast
next
  assume "c \<in> set ''01''"
  then show "radix_digit 2 c" by (auto simp: radix_digit_def is_digit_def digit_value_def)
qed

lemma radix_of_cases:
  "radix_of p = (if p = CHR ''x'' \<or> p = CHR ''X'' then Some 16
                 else if p = CHR ''o'' \<or> p = CHR ''O'' then Some 8
                 else if p = CHR ''b'' \<or> p = CHR ''B'' then Some 2 else None)"
  by (simp add: radix_of_def)

lemma NonDecimalIntegerLiteral_iff: "NonDecimalIntegerLiteral t \<noteq> None \<longleftrightarrow> non_decimal_integer t"
proof -
  have a: "list_all (radix_digit 16) ds \<longleftrightarrow> set ds \<subseteq> set ''0123456789abcdefABCDEF''" for ds
    unfolding list_all_iff subset_iff radix_digit_16 by blast
  have b: "list_all (radix_digit 8) ds \<longleftrightarrow> set ds \<subseteq> set ''01234567''" for ds
    unfolding list_all_iff subset_iff radix_digit_8 by blast
  have c: "list_all (radix_digit 2) ds \<longleftrightarrow> set ds \<subseteq> set ''01''" for ds
    unfolding list_all_iff subset_iff radix_digit_2 by blast
  show ?thesis
  proof (cases t)
    case Nil
    then show ?thesis by (simp add: NonDecimalIntegerLiteral_def non_decimal_integer_def)
  next
    case (Cons z r)
    show ?thesis
    proof (cases r)
      case Nil
      then show ?thesis using Cons by (simp add: NonDecimalIntegerLiteral_def non_decimal_integer_def)
    next
      case (Cons p ds)
      have t: "t = z # p # ds" using \<open>t = z # r\<close> Cons by simp
      have n: "non_decimal_integer t \<longleftrightarrow> z = CHR ''0'' \<and> ds \<noteq> []
        \<and> (((p = CHR ''x'' \<or> p = CHR ''X'') \<and> set ds \<subseteq> set ''0123456789abcdefABCDEF'')
           \<or> ((p = CHR ''o'' \<or> p = CHR ''O'') \<and> set ds \<subseteq> set ''01234567'')
           \<or> ((p = CHR ''b'' \<or> p = CHR ''B'') \<and> set ds \<subseteq> set ''01''))"
        unfolding non_decimal_integer_def t by blast
      have l: "NonDecimalIntegerLiteral t \<noteq> None \<longleftrightarrow>
          (\<exists>b. radix_of p = Some b \<and> z = CHR ''0'' \<and> ds \<noteq> [] \<and> list_all (radix_digit b) ds)"
        by (cases "radix_of p") (simp_all add: t NonDecimalIntegerLiteral_def)
      consider (hex) "p = CHR ''x'' \<or> p = CHR ''X''" | (oct) "p = CHR ''o'' \<or> p = CHR ''O''"
        | (bin) "p = CHR ''b'' \<or> p = CHR ''B''" | (none) "radix_of p = None"
        unfolding radix_of_def by metis
      then show ?thesis
      proof cases
        case hex
        then have r: "radix_of p = Some 16" unfolding radix_of_def by simp
        from hex have x: "\<not> (p = CHR ''o'' \<or> p = CHR ''O'')" "\<not> (p = CHR ''b'' \<or> p = CHR ''B'')"
          by auto
        show ?thesis unfolding l n r a[symmetric] using hex x by simp
      next
        case oct
        then have x: "\<not> (p = CHR ''x'' \<or> p = CHR ''X'')" "\<not> (p = CHR ''b'' \<or> p = CHR ''B'')"
          by auto
        then have r: "radix_of p = Some 8" using oct unfolding radix_of_def by simp
        show ?thesis unfolding l n r b[symmetric] using oct x by simp
      next
        case bin
        then have x: "\<not> (p = CHR ''x'' \<or> p = CHR ''X'')" "\<not> (p = CHR ''o'' \<or> p = CHR ''O'')"
          by auto
        then have r: "radix_of p = Some 2" using bin unfolding radix_of_def by simp
        show ?thesis unfolding l n r c[symmetric] using bin x by simp
      next
        case none
        then have x: "\<not> (p = CHR ''x'' \<or> p = CHR ''X'')" "\<not> (p = CHR ''o'' \<or> p = CHR ''O'')"
          "\<not> (p = CHR ''b'' \<or> p = CHR ''B'')"
          unfolding radix_of_def by (simp_all split: if_splits)
        show ?thesis unfolding l n none using x by simp
      qed
    qed
  qed
qed

lemma hex_not_space: "c \<in> set ''0123456789abcdefABCDEF'' \<Longrightarrow> \<not> is_space c"
  by (auto simp: is_space_def)

lemma symbol_not_space: "c \<in> set ''Infinity+-.xXoObB'' \<Longrightarrow> \<not> is_space c"
  by (auto simp: is_space_def)

lemma exponent_part_no_space: "exponent_part x \<Longrightarrow> c \<in> set x \<Longrightarrow> \<not> is_space c"
proof -
  assume "exponent_part x" and c: "c \<in> set x"
  then obtain e sg ds where x: "x = e # sg @ ds" and e: "e = CHR ''e'' \<or> e = CHR ''E''"
    and sg: "sg = [] \<or> sg = ''+'' \<or> sg = ''-''" and ds: "list_all is_digit ds"
    unfolding exponent_part_def by blast
  from c x have "c = e \<or> c \<in> set sg \<or> c \<in> set ds" by auto
  then show ?thesis
  proof (elim disjE)
    assume "c = e"
    with e have "c \<in> set ''0123456789abcdefABCDEF''" by (elim disjE) simp_all
    then show ?thesis by (rule hex_not_space)
  next
    assume "c \<in> set sg"
    with sg have "c \<in> set ''Infinity+-.xXoObB''" by (elim disjE) simp_all
    then show ?thesis by (rule symbol_not_space)
  next
    assume "c \<in> set ds"
    then show ?thesis using ds digit_not_space by (simp add: list_all_iff)
  qed
qed

lemma unsigned_decimal_no_space:
  assumes "unsigned_decimal u"
  shows "u \<noteq> []" and "c \<in> set u \<Longrightarrow> \<not> is_space c"
    and "is_digit (hd u) \<or> hd u = CHR ''.'' \<or> hd u = CHR ''I''"
proof -
  from assms consider (inf) "u = ''Infinity''"
    | (frac) ip fp x where "list_all is_digit ip" "list_all is_digit fp" "x = [] \<or> exponent_part x"
        "u = ip @ ''.'' @ fp @ x"
    | (whole) ip x where "list_all is_digit ip" "x = [] \<or> exponent_part x"
        "u = ip @ x" "ip \<noteq> []"
    unfolding unsigned_decimal_def by blast
  then have "u \<noteq> [] \<and> (c \<in> set u \<longrightarrow> \<not> is_space c)
      \<and> (is_digit (hd u) \<or> hd u = CHR ''.'' \<or> hd u = CHR ''I'')"
  proof cases
    case inf
    have "c \<in> set u \<longrightarrow> c \<in> set ''Infinity+-.xXoObB''" unfolding inf by simp
    then have "c \<in> set u \<longrightarrow> \<not> is_space c" using symbol_not_space by blast
    then show ?thesis using inf by simp
  next
    case frac
    have a: "c \<in> set ip \<Longrightarrow> \<not> is_space c" using frac(1) digit_not_space by (simp add: list_all_iff)
    have b: "c \<in> set fp \<Longrightarrow> \<not> is_space c" using frac(2) digit_not_space by (simp add: list_all_iff)
    have d: "c \<in> set x \<Longrightarrow> \<not> is_space c" using frac(3) exponent_part_no_space by auto
    have e: "\<not> is_space (CHR ''.'')" by (simp add: is_space_def)
    have h: "is_digit (hd u) \<or> hd u = CHR ''.''"
      using frac(1) frac(4) by (cases ip) simp_all
    have m: "c \<in> set u \<longrightarrow> c \<in> set ip \<or> c = CHR ''.'' \<or> c \<in> set fp \<or> c \<in> set x"
      using frac(4) by auto
    have ne: "u \<noteq> []" using frac(4) by simp
    show ?thesis using a b d e h m ne by blast
  next
    case whole
    have a: "c \<in> set ip \<Longrightarrow> \<not> is_space c" using whole(1) digit_not_space by (simp add: list_all_iff)
    have d: "c \<in> set x \<Longrightarrow> \<not> is_space c" using whole(2) exponent_part_no_space by auto
    have h: "is_digit (hd u)" using whole(1) whole(3) whole(4) by (cases ip) simp_all
    have m: "c \<in> set u \<longrightarrow> c \<in> set ip \<or> c \<in> set x" using whole(3) by auto
    have ne: "u \<noteq> []" using whole(3) whole(4) by simp
    show ?thesis using a d h m ne by blast
  qed
  then show "u \<noteq> []" and "c \<in> set u \<Longrightarrow> \<not> is_space c"
    and "is_digit (hd u) \<or> hd u = CHR ''.'' \<or> hd u = CHR ''I''" by blast+
qed

lemma non_decimal_integer_no_space:
  assumes "non_decimal_integer t"
  shows "t \<noteq> []" and "c \<in> set t \<Longrightarrow> \<not> is_space c"
proof -
  from assms obtain p ds where t: "t = CHR ''0'' # p # ds"
    and pd: "((p = CHR ''x'' \<or> p = CHR ''X'') \<and> set ds \<subseteq> set ''0123456789abcdefABCDEF'')
           \<or> ((p = CHR ''o'' \<or> p = CHR ''O'') \<and> set ds \<subseteq> set ''01234567'')
           \<or> ((p = CHR ''b'' \<or> p = CHR ''B'') \<and> set ds \<subseteq> set ''01'')"
    unfolding non_decimal_integer_def by blast
  have o: "set ''01234567'' \<subseteq> set ''0123456789abcdefABCDEF''" by simp
  have b: "set ''01'' \<subseteq> set ''0123456789abcdefABCDEF''" by simp
  from pd o b have ds: "set ds \<subseteq> set ''0123456789abcdefABCDEF''" by blast
  from pd have p: "p = CHR ''x'' \<or> p = CHR ''X'' \<or> p = CHR ''o'' \<or> p = CHR ''O'' \<or> p = CHR ''b'' \<or> p = CHR ''B''"
    by blast
  show "t \<noteq> []" using t by simp
  assume "c \<in> set t"
  then have "c = CHR ''0'' \<or> c = p \<or> c \<in> set ds" using t by auto
  then show "\<not> is_space c"
  proof (elim disjE)
    assume "c = CHR ''0''"
    then have "c \<in> set ''0123456789abcdefABCDEF''" by simp
    then show ?thesis by (rule hex_not_space)
  next
    assume "c = p"
    with p have "c \<in> set ''Infinity+-.xXoObB''" by (elim disjE) simp_all
    then show ?thesis by (rule symbol_not_space)
  next
    assume "c \<in> set ds"
    with ds have "c \<in> set ''0123456789abcdefABCDEF''" by blast
    then show ?thesis by (rule hex_not_space)
  qed
qed

lemma StrDecimalLiteral_iff:
  "StrDecimalLiteral t \<noteq> None \<longleftrightarrow>
     unsigned_decimal t \<or> (\<exists>u. (t = CHR ''+'' # u \<or> t = CHR ''-'' # u) \<and> unsigned_decimal u)"
proof (cases "t \<noteq> [] \<and> (hd t = CHR ''+'' \<or> hd t = CHR ''-'')")
  case True
  then obtain u where t: "t = CHR ''+'' # u \<or> t = CHR ''-'' # u" by (cases t) auto
  have nd: "\<not> is_digit (hd t) \<and> hd t \<noteq> CHR ''.'' \<and> hd t \<noteq> CHR ''I''"
    using True by (auto simp: is_digit_def)
  then have "\<not> unsigned_decimal t" using unsigned_decimal_no_space(3)[of t] by blast
  moreover from t have "StrDecimalLiteral t \<noteq> None \<longleftrightarrow> unsigned_decimal u"
  proof
    assume "t = CHR ''+'' # u"
    then have "StrDecimalLiteral t = StrUnsignedDecimalLiteral False u"
      by (simp add: StrDecimalLiteral_def)
    then show ?thesis by (simp only: StrUnsignedDecimalLiteral_iff)
  next
    assume "t = CHR ''-'' # u"
    then have "StrDecimalLiteral t = StrUnsignedDecimalLiteral True u"
      by (simp add: StrDecimalLiteral_def)
    then show ?thesis by (simp only: StrUnsignedDecimalLiteral_iff)
  qed
  ultimately show ?thesis using t by auto
next
  case False
  then have e: "StrDecimalLiteral t = StrUnsignedDecimalLiteral False t"
    by (auto simp: StrDecimalLiteral_def)
  have n: "\<not> (\<exists>u. (t = CHR ''+'' # u \<or> t = CHR ''-'' # u) \<and> unsigned_decimal u)"
    using False by auto
  show ?thesis unfolding e StrUnsignedDecimalLiteral_iff using n by blast
qed

lemma trim_spaces_around:
  "\<exists>xs ys. s = xs @ trim s @ ys \<and> list_all is_space xs \<and> list_all is_space ys"
proof -
  let ?d = "dropWhile is_space s"
  let ?xs = "takeWhile is_space s"
  let ?ys = "rev (takeWhile is_space (rev ?d))"
  have a: "s = ?xs @ ?d" by simp
  have "rev (takeWhile is_space (rev ?d) @ dropWhile is_space (rev ?d)) = ?d"
    by (simp only: takeWhile_dropWhile_id rev_rev_ident)
  then have b: "?d = trim s @ ?ys" by (simp only: rev_append trim_def)
  from a b have "s = ?xs @ trim s @ ?ys" by simp
  moreover have "list_all is_space ?xs" unfolding list_all_iff using set_takeWhileD by fast
  moreover have "list_all is_space ?ys" unfolding list_all_iff set_rev using set_takeWhileD by fast
  ultimately show ?thesis by blast
qed

lemma trim_sandwich:
  assumes "list_all is_space xs" and "list_all is_space ys"
    and "body = [] \<or> (\<not> is_space (hd body) \<and> \<not> is_space (last body))"
  shows "trim (xs @ body @ ys) = body"
proof (cases "body = []")
  case True
  have "\<forall>c\<in>set (xs @ ys). is_space c" using assms(1,2) by (auto simp: list_all_iff)
  then have d: "dropWhile is_space (xs @ ys) = []" by (simp only: dropWhile_eq_Nil_conv)
  have "trim (xs @ ys) = []" unfolding trim_def d by simp
  then show ?thesis using True by simp
next
  case False
  with assms(3) have h: "\<not> is_space (hd body)" and l: "\<not> is_space (last body)" by auto
  have xa: "\<forall>c\<in>set xs. is_space c" and ya: "\<forall>c\<in>set (rev ys). is_space c"
    using assms(1,2) by (simp_all add: list_all_iff)
  have d0: "dropWhile is_space (body @ ys) = body @ ys" using False h by (cases body) simp_all
  have d1: "dropWhile is_space (xs @ body @ ys) = body @ ys"
    using xa d0 by (simp add: dropWhile_append2)
  have "hd (rev body) = last body" using False by (simp add: hd_rev)
  then have "\<not> is_space (hd (rev body))" using l by simp
  then have d2: "dropWhile is_space (rev body) = rev body" by (simp add: dropWhile_eq_self_iff)
  have "dropWhile is_space (rev ys @ rev body) = dropWhile is_space (rev body)"
    using ya by (intro dropWhile_append2) simp
  then have "dropWhile is_space (rev ys @ rev body) = rev body" by (simp only: d2)
  then show ?thesis by (simp add: trim_def d1)
qed

lemma numeric_literal_iff: "numeric_literal s \<longleftrightarrow> StringNumericLiteral s \<noteq> None"
proof
  assume "StringNumericLiteral s \<noteq> None"
  then have b: "trim s = [] \<or> NonDecimalIntegerLiteral (trim s) \<noteq> None \<or> StrDecimalLiteral (trim s) \<noteq> None"
    by (auto simp: StringNumericLiteral_def Let_def split: if_splits option.splits)
  obtain xs ys where d: "s = xs @ trim s @ ys" "list_all is_space xs" "list_all is_space ys"
    using trim_spaces_around by blast
  from b have "trim s = [] \<or> non_decimal_integer (trim s) \<or> unsigned_decimal (trim s)
      \<or> (\<exists>u. (trim s = CHR ''+'' # u \<or> trim s = CHR ''-'' # u) \<and> unsigned_decimal u)"
    by (simp only: NonDecimalIntegerLiteral_iff StrDecimalLiteral_iff)
  with d show "numeric_literal s" unfolding numeric_literal_def by blast
next
  assume "numeric_literal s"
  then obtain xs body ys where s: "s = xs @ body @ ys" and xs: "list_all is_space xs"
    and ys: "list_all is_space ys"
    and b: "body = [] \<or> non_decimal_integer body \<or> unsigned_decimal body
           \<or> (\<exists>u. (body = CHR ''+'' # u \<or> body = CHR ''-'' # u) \<and> unsigned_decimal u)"
    unfolding numeric_literal_def by blast
  have ns: "body = [] \<or> (\<forall>c\<in>set body. \<not> is_space c)"
    using b
  proof (elim disjE exE conjE)
    assume "body = []"
    then show ?thesis by simp
  next
    assume "non_decimal_integer body"
    then show ?thesis using non_decimal_integer_no_space(2) by blast
  next
    assume "unsigned_decimal body"
    then show ?thesis using unsigned_decimal_no_space(2) by blast
  next
    fix u assume u: "unsigned_decimal u" and "body = CHR ''+'' # u"
    then show ?thesis using unsigned_decimal_no_space(2)[OF u] by (auto simp: is_space_def)
  next
    fix u assume u: "unsigned_decimal u" and "body = CHR ''-'' # u"
    then show ?thesis using unsigned_decimal_no_space(2)[OF u] by (auto simp: is_space_def)
  qed
  then have "body = [] \<or> (\<not> is_space (hd body) \<and> \<not> is_space (last body))"
    by (cases "body = []") simp_all
  then have t: "trim s = body" unfolding s by (rule trim_sandwich[OF xs ys])
  from b have "body = [] \<or> NonDecimalIntegerLiteral body \<noteq> None \<or> StrDecimalLiteral body \<noteq> None"
    by (simp only: NonDecimalIntegerLiteral_iff StrDecimalLiteral_iff)
  then show "StringNumericLiteral s \<noteq> None"
    by (auto simp: StringNumericLiteral_def Let_def t split: option.splits)
qed

subsection \<open>Values of the configured limits\<close>

lemma StringNumericLiteral_digits:
  assumes ne: "s \<noteq> []" and ds: "list_all is_digit s"
  shows "StringNumericLiteral s = Some (DecimalLiteral False s [] 0)"
proof -
  have all: "\<forall>c\<in>set s. is_digit c" using ds by (simp add: list_all_iff)
  have h: "is_digit (hd s)" and l: "is_digit (last s)" using ne all by simp_all
  have t: "trim s = s" by (rule trim_fixed) (use h l digit_not_space in blast)
  have sym: "hd s \<noteq> CHR ''+'' \<and> hd s \<noteq> CHR ''-'' \<and> hd s \<noteq> CHR ''I''"
    using digit_not_letter[OF h] by blast
  have nd: "NonDecimalIntegerLiteral s = None"
  proof (cases s)
    case Nil
    then show ?thesis by (simp add: NonDecimalIntegerLiteral_def)
  next
    case (Cons z r)
    show ?thesis
    proof (cases r)
      case Nil
      then show ?thesis using Cons by (simp add: NonDecimalIntegerLiteral_def)
    next
      case (Cons p r')
      then have "is_digit p" using all \<open>s = z # r\<close> by simp
      then have "radix_of p = None" using digit_not_letter by blast
      then show ?thesis using Cons \<open>s = z # r\<close> by (simp add: NonDecimalIntegerLiteral_def)
    qed
  qed
  have inf: "s \<noteq> ''Infinity''" using sym by auto
  have tw: "takeWhile is_digit s = s" using all by simp
  have dw: "dropWhile is_digit s = []" using all by simp
  have "StrUnsignedDecimalLiteral False s = Some (DecimalLiteral False s [] 0)"
    unfolding StrUnsignedDecimalLiteral_def Let_def tw dw using ne inf
    by (simp add: ExponentPart_def)
  then have "StrDecimalLiteral s = Some (DecimalLiteral False s [] 0)"
    using sym by (simp add: StrDecimalLiteral_def)
  then show ?thesis using ne by (simp add: StringNumericLiteral_def Let_def t nd)
qed

lemma Number_digits:
  assumes "s \<noteq> []" and "list_all is_digit s"
  shows "Number s = to_double False (of_nat (decimal s))"
  by (simp add: Number_def StringNumericLiteral_digits[OF assms] pow10_def)

lemma Number_digits_exact:
  assumes "s \<noteq> []" and "list_all is_digit s" and "decimal s \<le> 2 ^ 53"
  shows "Number s = Finite (of_nat (decimal s))"
  by (simp only: Number_digits[OF assms(1,2)] to_double_exact[OF assms(3)])

lemma Number_NaN:
  "Number s = NotANumber \<longleftrightarrow> \<not> numeric_literal s"
  by (simp only: Number_NaN_iff numeric_literal_iff) simp

lemma numeric_literal_start:
  assumes "numeric_literal s" and "s \<noteq> []"
  shows "numeric_start (hd s)"
proof -
  from assms(1) obtain xs body ys where s: "s = xs @ body @ ys" and xs: "list_all is_space xs"
    and ys: "list_all is_space ys"
    and b: "body = [] \<or> non_decimal_integer body \<or> unsigned_decimal body
           \<or> (\<exists>u. (body = CHR ''+'' # u \<or> body = CHR ''-'' # u) \<and> unsigned_decimal u)"
    unfolding numeric_literal_def by blast
  show ?thesis
  proof (cases "xs = []")
    case False
    then have "hd s = hd xs" using s by simp
    moreover have "is_space (hd xs)" using False xs by (cases xs) simp_all
    ultimately show ?thesis by (simp add: numeric_start_def)
  next
    case True
    show ?thesis
    proof (cases "body = []")
      case e: True
      then have "s = ys" using s True by simp
      then have "is_space (hd s)" using assms(2) ys by (cases ys) simp_all
      then show ?thesis by (simp add: numeric_start_def)
    next
      case False
      then have hs: "hd s = hd body" using s True by simp
      from b False consider (radix) "non_decimal_integer body" | (plain) "unsigned_decimal body"
        | (signed) u where "body = CHR ''+'' # u \<or> body = CHR ''-'' # u" by blast
      then have "is_digit (hd body) \<or> hd body \<in> set ''+-.I''"
      proof cases
        case radix
        then have "hd body = CHR ''0''" unfolding non_decimal_integer_def by auto
        then show ?thesis by (simp add: is_digit_def)
      next
        case plain
        then show ?thesis using unsigned_decimal_no_space(3)[of body] by auto
      next
        case signed
        then show ?thesis by auto
      qed
      then show ?thesis unfolding numeric_start_def hs by blast
    qed
  qed
qed

lemma number_or_default_unset:
  "v = None \<or> v = Some [] \<Longrightarrow> number_or_default v d = Finite (of_int d)"
  by (auto simp: number_or_default_def)

lemma number_or_default_set:
  assumes "s \<noteq> []"
  shows "number_or_default (Some s) d = Number s
     \<and> (list_all is_digit s \<longrightarrow> number_or_default (Some s) d = to_double False (of_nat (decimal s)))
     \<and> (list_all is_digit s \<and> decimal s \<le> 2 ^ 53
          \<longrightarrow> number_or_default (Some s) d = Finite (of_nat (decimal s)))
     \<and> (number_or_default (Some s) d = NotANumber \<longleftrightarrow> \<not> numeric_literal s)
     \<and> (\<not> numeric_start (hd s) \<longrightarrow> number_or_default (Some s) d = NotANumber)"
proof -
  have n: "number_or_default (Some s) d = Number s" using assms by (simp add: number_or_default_def)
  have a: "list_all is_digit s \<longrightarrow> Number s = to_double False (of_nat (decimal s))"
    using Number_digits[OF assms] by blast
  have b: "list_all is_digit s \<and> decimal s \<le> 2 ^ 53 \<longrightarrow> Number s = Finite (of_nat (decimal s))"
    using Number_digits_exact[OF assms] by blast
  have c: "\<not> numeric_start (hd s) \<longrightarrow> Number s = NotANumber"
    using numeric_literal_start[OF _ assms] Number_NaN by blast
  show ?thesis unfolding n using a b c Number_NaN by blast
qed

text \<open>
  C8, as amended. Each of the three configured numbers (the two video limits and the video
  size limit) is its default (10, 400, 1200) when its variable is unset or empty. Any other
  value \<open>s\<close> goes through \<^verbatim>\<open>Number\<close> with no fallback: decimal digits give the double
  nearest to the number they denote, which is that number up to \<open>2\<^sup>5\<^sup>3\<close>; the result is
  \<^verbatim>\<open>NaN\<close> exactly when \<open>s\<close> is not a numeric string, in particular when its first
  character cannot start one. The photo limits are the constants 10 and 600 and read no
  variable.
\<close>

theorem numeric_config_values:
  "(e ''MAX_VIDEOS_PER_PERSON'' = None \<or> e ''MAX_VIDEOS_PER_PERSON'' = Some []
      \<longrightarrow> MAX_VIDEOS_PER_PERSON e = Finite 10)
   \<and> (e ''MAX_VIDEOS_PER_PERSON'' = Some s \<and> s \<noteq> []
      \<longrightarrow> MAX_VIDEOS_PER_PERSON e = Number s
        \<and> (list_all is_digit s \<longrightarrow> MAX_VIDEOS_PER_PERSON e = to_double False (of_nat (decimal s)))
        \<and> (list_all is_digit s \<and> decimal s \<le> 2 ^ 53
             \<longrightarrow> MAX_VIDEOS_PER_PERSON e = Finite (of_nat (decimal s)))
        \<and> (MAX_VIDEOS_PER_PERSON e = NotANumber \<longleftrightarrow> \<not> numeric_literal s)
        \<and> (\<not> numeric_start (hd s) \<longrightarrow> MAX_VIDEOS_PER_PERSON e = NotANumber))
   \<and> (e ''MAX_TOTAL_VIDEOS'' = None \<or> e ''MAX_TOTAL_VIDEOS'' = Some []
      \<longrightarrow> MAX_TOTAL_VIDEOS e = Finite 400)
   \<and> (e ''MAX_TOTAL_VIDEOS'' = Some s \<and> s \<noteq> []
      \<longrightarrow> MAX_TOTAL_VIDEOS e = Number s
        \<and> (list_all is_digit s \<longrightarrow> MAX_TOTAL_VIDEOS e = to_double False (of_nat (decimal s)))
        \<and> (list_all is_digit s \<and> decimal s \<le> 2 ^ 53
             \<longrightarrow> MAX_TOTAL_VIDEOS e = Finite (of_nat (decimal s)))
        \<and> (MAX_TOTAL_VIDEOS e = NotANumber \<longleftrightarrow> \<not> numeric_literal s)
        \<and> (\<not> numeric_start (hd s) \<longrightarrow> MAX_TOTAL_VIDEOS e = NotANumber))
   \<and> (e ''MAX_VIDEO_SIZE_MB'' = None \<or> e ''MAX_VIDEO_SIZE_MB'' = Some []
      \<longrightarrow> MAX_VIDEO_SIZE_MB e = Finite 1200)
   \<and> (e ''MAX_VIDEO_SIZE_MB'' = Some s \<and> s \<noteq> []
      \<longrightarrow> MAX_VIDEO_SIZE_MB e = Number s
        \<and> (list_all is_digit s \<longrightarrow> MAX_VIDEO_SIZE_MB e = to_double False (of_nat (decimal s)))
        \<and> (list_all is_digit s \<and> decimal s \<le> 2 ^ 53
             \<longrightarrow> MAX_VIDEO_SIZE_MB e = Finite (of_nat (decimal s)))
        \<and> (MAX_VIDEO_SIZE_MB e = NotANumber \<longleftrightarrow> \<not> numeric_literal s)
        \<and> (\<not> numeric_start (hd s) \<longrightarrow> MAX_VIDEO_SIZE_MB e = NotANumber))
   \<and> MAX_PHOTOS_PER_PERSON = Num 10 \<and> MAX_TOTAL_PHOTOS = Num 600"
proof -
  have u: "v = None \<or> v = Some [] \<longrightarrow> number_or_default v d = Finite (of_int d)" for v d
    using number_or_default_unset by blast
  have v: "w = Some s \<and> s \<noteq> []
      \<longrightarrow> number_or_default w d = Number s
        \<and> (list_all is_digit s \<longrightarrow> number_or_default w d = to_double False (of_nat (decimal s)))
        \<and> (list_all is_digit s \<and> decimal s \<le> 2 ^ 53
             \<longrightarrow> number_or_default w d = Finite (of_nat (decimal s)))
        \<and> (number_or_default w d = NotANumber \<longleftrightarrow> \<not> numeric_literal s)
        \<and> (\<not> numeric_start (hd s) \<longrightarrow> number_or_default w d = NotANumber)" for w d
    using number_or_default_set[of s d] by blast
  show ?thesis
    unfolding MAX_VIDEOS_PER_PERSON_def MAX_TOTAL_VIDEOS_def MAX_VIDEO_SIZE_MB_def
    apply (intro conjI)
    subgoal using u[of "e ''MAX_VIDEOS_PER_PERSON''" 10] by simp
    subgoal by (rule v)
    subgoal using u[of "e ''MAX_TOTAL_VIDEOS''" 400] by simp
    subgoal by (rule v)
    subgoal using u[of "e ''MAX_VIDEO_SIZE_MB''" 1200] by simp
    subgoal by (rule v)
    subgoal by (simp add: MAX_PHOTOS_PER_PERSON_def)
    subgoal by (simp add: MAX_TOTAL_PHOTOS_def)
    done
qed

theorem numeric_config_values_witness:
  "MAX_VIDEOS_PER_PERSON (\<lambda>_. None) = Finite 10
   \<and> MAX_TOTAL_VIDEOS ((\<lambda>_. None)(''MAX_TOTAL_VIDEOS'' \<mapsto> [])) = Finite 400
   \<and> MAX_VIDEO_SIZE_MB (\<lambda>_. None) = Finite 1200
   \<and> MAX_VIDEOS_PER_PERSON ((\<lambda>_. None)(''MAX_VIDEOS_PER_PERSON'' \<mapsto> ''25'')) = Finite 25
   \<and> MAX_TOTAL_VIDEOS ((\<lambda>_. None)(''MAX_TOTAL_VIDEOS'' \<mapsto> ''25'')) = Finite 25
   \<and> MAX_VIDEO_SIZE_MB ((\<lambda>_. None)(''MAX_VIDEO_SIZE_MB'' \<mapsto> ''25'')) = Finite 25
   \<and> MAX_VIDEOS_PER_PERSON ((\<lambda>_. None)(''MAX_VIDEOS_PER_PERSON'' \<mapsto> ''12abc'')) = NotANumber
   \<and> MAX_TOTAL_VIDEOS ((\<lambda>_. None)(''MAX_TOTAL_VIDEOS'' \<mapsto> ''-abc'')) = NotANumber
   \<and> MAX_VIDEO_SIZE_MB ((\<lambda>_. None)(''MAX_VIDEO_SIZE_MB'' \<mapsto> ''1.2.3'')) = NotANumber
   \<and> MAX_TOTAL_VIDEOS ((\<lambda>_. None)(''MAX_TOTAL_VIDEOS'' \<mapsto> ''lots'')) = NotANumber
   \<and> \<not> numeric_literal ''12abc'' \<and> \<not> numeric_literal ''-abc'' \<and> \<not> numeric_literal ''1.2.3''"
proof -
  let ?P = "\<lambda>s. (\<lambda>_. None)(''MAX_VIDEOS_PER_PERSON'' \<mapsto> s)"
  let ?T = "\<lambda>s. (\<lambda>_. None)(''MAX_TOTAL_VIDEOS'' \<mapsto> s)"
  let ?S = "\<lambda>s. (\<lambda>_. None)(''MAX_VIDEO_SIZE_MB'' \<mapsto> s)"
  have a: "MAX_VIDEOS_PER_PERSON (\<lambda>_. None) = Finite 10"
    by (rule numeric_config_values[of "\<lambda>_. None" "[]", THEN conjunct1, THEN mp]) simp
  have b: "MAX_TOTAL_VIDEOS (?T []) = Finite 400"
    by (rule numeric_config_values[of "?T []" "[]",
          THEN conjunct2, THEN conjunct2, THEN conjunct1, THEN mp]) simp
  have c: "MAX_VIDEO_SIZE_MB (\<lambda>_. None) = Finite 1200"
    by (rule numeric_config_values[of "\<lambda>_. None" "[]", THEN conjunct2, THEN conjunct2,
          THEN conjunct2, THEN conjunct2, THEN conjunct1, THEN mp]) simp
  have d25: "rat_of_nat (decimal ''25'') = 25" by (simp add: decimal_def digit_value_def)
  have l25: "list_all is_digit ''25'' \<and> decimal ''25'' \<le> 2 ^ 53"
    by (simp add: is_digit_def decimal_def digit_value_def)
  have sP: "?P s ''MAX_VIDEOS_PER_PERSON'' = Some s" for s by simp
  have sT: "?T s ''MAX_TOTAL_VIDEOS'' = Some s" for s by simp
  have sS: "?S s ''MAX_VIDEO_SIZE_MB'' = Some s" for s by simp
  have ne: "''25'' \<noteq> []" "''12abc'' \<noteq> []" "''-abc'' \<noteq> []" "''1.2.3'' \<noteq> []" "''lots'' \<noteq> []"
    by simp_all
  note P = numeric_config_values[of "(\<lambda>_. None)(''MAX_VIDEOS_PER_PERSON'' \<mapsto> s)" s for s,
      THEN conjunct2, THEN conjunct1, THEN mp, OF conjI, OF sP]
  note T = numeric_config_values[of "(\<lambda>_. None)(''MAX_TOTAL_VIDEOS'' \<mapsto> s)" s for s,
      THEN conjunct2, THEN conjunct2, THEN conjunct2, THEN conjunct1, THEN mp, OF conjI, OF sT]
  note S = numeric_config_values[of "(\<lambda>_. None)(''MAX_VIDEO_SIZE_MB'' \<mapsto> s)" s for s,
      THEN conjunct2, THEN conjunct2, THEN conjunct2, THEN conjunct2, THEN conjunct2,
      THEN conjunct1, THEN mp, OF conjI, OF sS]
  note exact = conjunct2[THEN conjunct2, THEN conjunct1, THEN mp]
  note nan_iff = conjunct2[THEN conjunct2, THEN conjunct2, THEN conjunct1]
  note start = conjunct2[THEN conjunct2, THEN conjunct2, THEN conjunct2, THEN mp]
  have d: "MAX_VIDEOS_PER_PERSON (?P ''25'') = Finite 25"
    using exact[OF P[OF ne(1)] l25] by (simp only: d25)
  have f: "MAX_TOTAL_VIDEOS (?T ''25'') = Finite 25"
    using exact[OF T[OF ne(1)] l25] by (simp only: d25)
  have g: "MAX_VIDEO_SIZE_MB (?S ''25'') = Finite 25"
    using exact[OF S[OF ne(1)] l25] by (simp only: d25)
  have n1: "Number ''12abc'' = NotANumber" by code_simp
  have n2: "Number ''-abc'' = NotANumber" by code_simp
  have n3: "Number ''1.2.3'' = NotANumber" by code_simp
  have h: "MAX_VIDEOS_PER_PERSON (?P ''12abc'') = NotANumber"
    by (rule trans[OF conjunct1[OF P[OF ne(2)]] n1])
  have i: "MAX_TOTAL_VIDEOS (?T ''-abc'') = NotANumber"
    by (rule trans[OF conjunct1[OF T[OF ne(3)]] n2])
  have j: "MAX_VIDEO_SIZE_MB (?S ''1.2.3'') = NotANumber"
    by (rule trans[OF conjunct1[OF S[OF ne(4)]] n3])
  have h': "\<not> numeric_literal ''12abc''" by (rule nan_iff[OF P[OF ne(2)], THEN iffD1, OF h])
  have i': "\<not> numeric_literal ''-abc''" by (rule nan_iff[OF T[OF ne(3)], THEN iffD1, OF i])
  have j': "\<not> numeric_literal ''1.2.3''" by (rule nan_iff[OF S[OF ne(4)], THEN iffD1, OF j])
  have "\<not> numeric_start (hd ''lots'')" by code_simp
  then have k: "MAX_TOTAL_VIDEOS (?T ''lots'') = NotANumber"
    by (rule start[OF T[OF ne(5)]])
  show ?thesis by (intro conjI a b c d f g h i j k h' i' j')
qed

text \<open>
  C8 as stated fails for a value that is not a number: with
  \<^verbatim>\<open>MAX_VIDEOS_PER_PERSON=abc\<close> the limit is \<^verbatim>\<open>NaN\<close>, not the default 10.
\<close>

theorem numeric_config_counterexample:
  "MAX_VIDEOS_PER_PERSON ((\<lambda>_. None)(''MAX_VIDEOS_PER_PERSON'' \<mapsto> ''abc'')) = NotANumber
   \<and> MAX_VIDEOS_PER_PERSON ((\<lambda>_. None)(''MAX_VIDEOS_PER_PERSON'' \<mapsto> ''abc'')) \<noteq> Finite 10"
proof -
  have "Number ''abc'' = NotANumber" by code_simp
  then have "MAX_VIDEOS_PER_PERSON ((\<lambda>_. None)(''MAX_VIDEOS_PER_PERSON'' \<mapsto> ''abc'')) = NotANumber"
    by (simp add: MAX_VIDEOS_PER_PERSON_def number_or_default_def)
  then show ?thesis by simp
qed

section \<open>Resolving an uploader\<close>

lemma fold_max_ge: "sq \<le> fold max ids sq \<and> (\<forall>i\<in>set ids. i \<le> fold max ids (sq::nat))"
proof (induction ids arbitrary: sq)
  case Nil
  show ?case by simp
next
  case (Cons a ids)
  have "max a sq \<le> fold max ids (max a sq)" and "\<forall>i\<in>set ids. i \<le> fold max ids (max a sq)"
    using Cons[of "max a sq"] by blast+
  then show ?case by auto
qed

lemma next_rowid_fresh: "next_rowid sq ids \<notin> set ids" and next_rowid_gt: "sq < next_rowid sq ids"
  using fold_max_ge[of sq ids] by (auto simp: next_rowid_def)

lemma find_unique:
  assumes "distinct (map f xs)" and "x \<in> set xs" and "f x = v"
  shows "find (\<lambda>y. f y = v) xs = Some x"
  using assms by (induction xs) auto

lemma find_snoc:
  "find P (xs @ [x]) = (case find P xs of None \<Rightarrow> if P x then Some x else None | Some y \<Rightarrow> Some y)"
  by (induction xs) auto

lemma trim_normalize: "normalizeName (trim a) = normalizeName a"
  by (simp add: normalizeName_def trim_idem)

lemma getOrCreateUploader_found:
  "find (\<lambda>u. normalized_name u = normalizeName a) (uploaders st) = Some u
     \<Longrightarrow> getOrCreateUploader a st = (st, u)"
  by (simp add: getOrCreateUploader_def)

lemma getOrCreateUploader_result:
  "normalized_name (snd (getOrCreateUploader a st)) = normalizeName a
   \<and> snd (getOrCreateUploader a st) \<in> set (uploaders (fst (getOrCreateUploader a st)))"
proof (cases "find (\<lambda>u. normalized_name u = normalizeName a) (uploaders st)")
  case None
  then show ?thesis by (simp add: getOrCreateUploader_def Let_def)
next
  case (Some u)
  then have "normalized_name u = normalizeName a \<and> u \<in> set (uploaders st)"
    by (auto simp: find_Some_iff)
  then show ?thesis using Some by (simp add: getOrCreateUploader_def)
qed

lemma getOrCreateUploader_creates:
  "uploaders (fst (getOrCreateUploader a st)) =
     (if \<exists>u \<in> set (uploaders st). normalized_name u = normalizeName a then uploaders st
      else uploaders st @ [snd (getOrCreateUploader a st)])"
proof (cases "find (\<lambda>u. normalized_name u = normalizeName a) (uploaders st)")
  case None
  then have "\<not> (\<exists>u \<in> set (uploaders st). normalized_name u = normalizeName a)"
    by (simp add: find_None_iff)
  then show ?thesis using None by (simp add: getOrCreateUploader_def Let_def)
next
  case (Some u)
  then have "normalized_name u = normalizeName a \<and> u \<in> set (uploaders st)"
    by (auto simp: find_Some_iff)
  then show ?thesis using Some by (auto simp: getOrCreateUploader_def)
qed

lemma getOrCreateUploader_other_fields:
  "photos (fst (getOrCreateUploader a st)) = photos st"
  "videos (fst (getOrCreateUploader a st)) = videos st"
  "photos_seq (fst (getOrCreateUploader a st)) = photos_seq st"
  "videos_seq (fst (getOrCreateUploader a st)) = videos_seq st"
  "files (fst (getOrCreateUploader a st)) = files st"
  "dirs (fst (getOrCreateUploader a st)) = dirs st"
  by (simp_all add: getOrCreateUploader_def Let_def split: option.splits)

lemma getOrCreateUploader_distinct_names:
  assumes "distinct (map normalized_name (uploaders st))"
  shows "distinct (map normalized_name (uploaders (fst (getOrCreateUploader a st))))"
proof (cases "\<exists>u \<in> set (uploaders st). normalized_name u = normalizeName a")
  case True
  then show ?thesis using assms getOrCreateUploader_creates[of a st] by simp
next
  case False
  then have "normalizeName a \<notin> set (map normalized_name (uploaders st))" by auto
  then show ?thesis
    using assms False getOrCreateUploader_creates[of a st] getOrCreateUploader_result[of a st]
    by simp
qed

lemma getOrCreateUploader_distinct_ids:
  assumes "distinct (map u_id (uploaders st))"
  shows "distinct (map u_id (uploaders (fst (getOrCreateUploader a st))))"
proof (cases "find (\<lambda>u. normalized_name u = normalizeName a) (uploaders st)")
  case None
  then show ?thesis using assms next_rowid_fresh[of "uploaders_seq st" "map u_id (uploaders st)"]
    by (simp add: getOrCreateUploader_def Let_def)
next
  case (Some u)
  then show ?thesis using assms by (simp add: getOrCreateUploader_def)
qed

lemma getOrCreateUploader_again:
  assumes "normalizeName a = normalizeName b"
  shows "getOrCreateUploader b (fst (getOrCreateUploader a st)) = getOrCreateUploader a st"
proof (cases "find (\<lambda>u. normalized_name u = normalizeName a) (uploaders st)")
  case None
  let ?u = "snd (getOrCreateUploader a st)"
  have none: "\<not> (\<exists>u \<in> set (uploaders st). normalized_name u = normalizeName a)"
    using None by (simp add: find_None_iff)
  have ups: "uploaders (fst (getOrCreateUploader a st)) = uploaders st @ [?u]"
    using none getOrCreateUploader_creates[of a st] by simp
  have nm: "normalized_name ?u = normalizeName b"
    using getOrCreateUploader_result[of a st] assms by simp
  have "find (\<lambda>u. normalized_name u = normalizeName b) (uploaders st @ [?u]) = Some ?u"
  proof -
    have "find (\<lambda>u. normalized_name u = normalizeName b) (uploaders st) = None"
      using None assms by simp
    then show ?thesis using nm by (simp add: find_snoc)
  qed
  then have "getOrCreateUploader b (fst (getOrCreateUploader a st)) = (fst (getOrCreateUploader a st), ?u)"
    using ups by (intro getOrCreateUploader_found) simp
  then show ?thesis by simp
next
  case (Some u)
  then have "getOrCreateUploader a st = (st, u)" by (rule getOrCreateUploader_found)
  moreover have "getOrCreateUploader b st = (st, u)"
    using Some assms by (intro getOrCreateUploader_found) simp
  ultimately show ?thesis by simp
qed

lemma getOrCreateUploader_later:
  assumes "normalizeName a = normalizeName b"
    and "distinct (map normalized_name (uploaders st'))"
    and "snd (getOrCreateUploader a st) \<in> set (uploaders st')"
  shows "getOrCreateUploader b st' = (st', snd (getOrCreateUploader a st))"
proof -
  let ?u = "snd (getOrCreateUploader a st)"
  have "normalized_name ?u = normalizeName b"
    using getOrCreateUploader_result[of a st] assms(1) by simp
  then have "find (\<lambda>y. normalized_name y = normalizeName b) (uploaders st') = Some ?u"
    using find_unique[OF assms(2) assms(3)] by simp
  then show ?thesis by (rule getOrCreateUploader_found)
qed

section \<open>The upload handler, case by case\<close>

lemma safeUnlink_fields:
  "uploaders (safeUnlink p st) = uploaders st" "photos (safeUnlink p st) = photos st"
  "videos (safeUnlink p st) = videos st" "photos_seq (safeUnlink p st) = photos_seq st"
  "videos_seq (safeUnlink p st) = videos_seq st" "uploaders_seq (safeUnlink p st) = uploaders_seq st"
  "dirs (safeUnlink p st) = dirs st" "files (safeUnlink p st) = files st - {p}"
  by (simp_all add: safeUnlink_def)

lemma unlink_all_fields:
  "uploaders (unlink_all fs st) = uploaders st" "photos (unlink_all fs st) = photos st"
  "videos (unlink_all fs st) = videos st" "photos_seq (unlink_all fs st) = photos_seq st"
  "videos_seq (unlink_all fs st) = videos_seq st" "uploaders_seq (unlink_all fs st) = uploaders_seq st"
  "dirs (unlink_all fs st) = dirs st" "files (unlink_all fs st) = files st - path ` set fs"
  unfolding unlink_all_def
  by (induction fs arbitrary: st) (auto simp: safeUnlink_fields)

lemma table_unlink_all: "table k (unlink_all fs st) = table k st"
  and table_seq_unlink_all: "table_seq k (unlink_all fs st) = table_seq k st"
  by (cases k; simp add: table_def table_seq_def unlink_all_fields)+

lemma table_getOrCreateUploader: "table k (fst (getOrCreateUploader a st)) = table k st"
  and table_seq_getOrCreateUploader: "table_seq k (fst (getOrCreateUploader a st)) = table_seq k st"
  by (cases k; simp add: table_def table_seq_def getOrCreateUploader_other_fields)+

lemma set_table_fields:
  "table k (set_table k rows sq st) = rows" "table_seq k (set_table k rows sq st) = sq"
  "uploaders (set_table k rows sq st) = uploaders st" "files (set_table k rows sq st) = files st"
  "dirs (set_table k rows sq st) = dirs st" "uploaders_seq (set_table k rows sq st) = uploaders_seq st"
  by (cases k; simp add: table_def table_seq_def set_table_def)+

lemma set_table_other: "k' \<noteq> k \<Longrightarrow> table k' (set_table k rows sq st) = table k' st"
  and set_table_seq_other: "k' \<noteq> k \<Longrightarrow> table_seq k' (set_table k rows sq st) = table_seq k' st"
  by (cases k; cases k'; simp add: table_def table_seq_def set_table_def)+

lemma insert_all_fails:
  "\<exists>f \<in> set fs. file_name f = None \<Longrightarrow>
     insert_all k uid now fs (rows, sq) = Inl (NotNull (plural k @ ''.filename''))"
proof (induction fs arbitrary: rows sq)
  case Nil
  then show ?case by simp
next
  case (Cons f fs)
  show ?case
  proof (cases "file_name f")
    case None
    then show ?thesis by simp
  next
    case (Some fn)
    then have "\<exists>f \<in> set fs. file_name f = None" using Cons.prems by auto
    then show ?thesis using Cons.IH Some by (simp add: Let_def)
  qed
qed

lemma insert_all_succeeds:
  "\<forall>f \<in> set fs. file_name f \<noteq> None \<Longrightarrow>
     \<exists>new sq'. insert_all k uid now fs (rows, sq) = Inr (rows @ new, sq')
       \<and> map filename new = map (the \<circ> file_name) fs
       \<and> map original_name new = map originalname fs
       \<and> map mime_type new = map mimetype fs
       \<and> map m_size new = map file_size fs
       \<and> (\<forall>m \<in> set new. uploader_id m = uid \<and> uploaded_at m = now)
       \<and> (distinct (map m_id rows) \<longrightarrow> distinct (map m_id (rows @ new)))"
proof (induction fs arbitrary: rows sq)
  case Nil
  then show ?case by simp
next
  case (Cons f fs)
  then obtain fn where fn: "file_name f = Some fn" by auto
  let ?rowid = "next_rowid sq (map m_id rows)"
  let ?row = "\<lparr>m_id = ?rowid, uploader_id = uid, filename = fn,
                     original_name = originalname f, mime_type = mimetype f,
                     m_size = file_size f, uploaded_at = now\<rparr>"
  have rest: "\<forall>f \<in> set fs. file_name f \<noteq> None" using Cons.prems by simp
  obtain new sq' where n:
     "insert_all k uid now fs (rows @ [?row], ?rowid) = Inr ((rows @ [?row]) @ new, sq')"
     "map filename new = map (the \<circ> file_name) fs"
     "map original_name new = map originalname fs"
     "map mime_type new = map mimetype fs"
     "map m_size new = map file_size fs"
     "\<forall>m \<in> set new. uploader_id m = uid \<and> uploaded_at m = now"
     "distinct (map m_id (rows @ [?row])) \<longrightarrow> distinct (map m_id ((rows @ [?row]) @ new))"
    using Cons.IH[OF rest, of "rows @ [?row]" ?rowid] by blast
  have fresh: "?rowid \<notin> set (map m_id rows)" by (rule next_rowid_fresh)
  have d: "distinct (map m_id rows) \<longrightarrow> distinct (map m_id (rows @ (?row # new)))"
    using n(7) fresh by simp
  have "insert_all k uid now (f # fs) (rows, sq) = Inr (rows @ (?row # new), sq')"
    using n(1) fn by (simp add: Let_def)
  moreover have "map filename (?row # new) = map (the \<circ> file_name) (f # fs)"
    using n(2) fn by simp
  moreover have "map original_name (?row # new) = map originalname (f # fs)" using n(3) by simp
  moreover have "map mime_type (?row # new) = map mimetype (f # fs)" using n(4) by simp
  moreover have "map m_size (?row # new) = map file_size (f # fs)" using n(5) by simp
  moreover have "\<forall>m \<in> set (?row # new). uploader_id m = uid \<and> uploaded_at m = now"
    using n(6) by simp
  ultimately show ?case using d by blast
qed

lemma allowedNow_Num:
  assumes "per_person_limit cfg k = Num p" and "total_limit cfg k = Num g"
  shows "allowedNow k cfg uid st =
           Num (min (max 0 (p - int (length (filter (\<lambda>m. uploader_id m = uid) (table k st)))))
                    (max 0 (g - int (length (table k st)))))"
  using assms
  by (simp add: allowedNow_def remainingForUploader_def remainingGlobal_def getUploaderCount_def
      getTotalCount_def)

lemma slice_Num:
  "0 \<le> n \<Longrightarrow> slice_to xs (Num n) = take (nat n) xs"
  "0 \<le> n \<Longrightarrow> slice_from xs (Num n) = drop (nat n) xs"
  by (simp_all add: slice_to_def slice_from_def slice_index_def min_def)

lemma slice_partition: "slice_to xs n @ slice_from xs n = xs"
  by (simp add: slice_to_def slice_from_def)

lemma remainingGlobal_getOrCreateUploader:
  "remainingGlobal k cfg (fst (getOrCreateUploader a st)) = remainingGlobal k cfg st"
  by (simp add: remainingGlobal_def getTotalCount_def table_getOrCreateUploader)

lemma allowedNow_getOrCreateUploader:
  "allowedNow k cfg uid (fst (getOrCreateUploader a st)) = allowedNow k cfg uid st"
  by (simp add: allowedNow_def remainingGlobal_getOrCreateUploader remainingForUploader_def
      getUploaderCount_def table_getOrCreateUploader)


lemma transaction_failed:
  "\<exists>f \<in> set fs. file_name f = None \<Longrightarrow>
     transaction k uid now fs st = Inl (NotNull (plural k @ ''.filename''))"
  by (simp add: transaction_def insert_all_fails)

lemma transaction_committed:
  assumes "\<forall>f \<in> set fs. file_name f \<noteq> None"
  shows "\<exists>new sq'. transaction k uid now fs st = Inr (set_table k (table k st @ new) sq' st)
       \<and> map filename new = map (the \<circ> file_name) fs
       \<and> map original_name new = map originalname fs
       \<and> map mime_type new = map mimetype fs
       \<and> map m_size new = map file_size fs
       \<and> (\<forall>m \<in> set new. uploader_id m = uid \<and> uploaded_at m = now)
       \<and> (distinct (map m_id (table k st)) \<longrightarrow> distinct (map m_id (table k st @ new)))"
proof -
  obtain new sq' where n:
    "insert_all k uid now fs (table k st, table_seq k st) = Inr (table k st @ new, sq')"
    "map filename new = map (the \<circ> file_name) fs"
    "map original_name new = map originalname fs"
    "map mime_type new = map mimetype fs"
    "map m_size new = map file_size fs"
    "\<forall>m \<in> set new. uploader_id m = uid \<and> uploaded_at m = now"
    "distinct (map m_id (table k st)) \<longrightarrow> distinct (map m_id (table k st @ new))"
    using insert_all_succeeds[OF assms, of k uid now "table k st" "table_seq k st"] by blast
  have "transaction k uid now fs st = Inr (set_table k (table k st @ new) sq' st)"
    using n(1) by (simp add: transaction_def)
  then show ?thesis using n(2-7) by blast
qed

lemma upload_no_name:
  "trim (req_name req) = [] \<Longrightarrow>
     upload k cfg req st =
       (unlink_all (req_files req) st, Redirect (home k) (Error ''Please provide your name.''))"
  by (simp add: upload_def Let_def)

lemma upload_no_files:
  "trim (req_name req) \<noteq> [] \<Longrightarrow> req_files req = [] \<Longrightarrow>
     upload k cfg req st =
       (st, Redirect (home k) (Error (''Please select at least one '' @ noun k @ ''.'')))"
  by (simp add: upload_def Let_def)

lemma upload_admitted:
  assumes "trim (req_name req) \<noteq> []" and "req_files req \<noteq> []"
  shows "upload k cfg req st =
     (if js_le (allowed_for k cfg req st) (Num 0) then
        (unlink_all (req_files req) (after_resolve req st),
         Redirect (home k)
           (Error (if js_le (remainingGlobal k cfg st) (Num 0) then full_message k
                   else per_person_message cfg k)))
      else
        (case transaction k (u_id (resolved req st)) (req_now req) (acceptedFiles k cfg req st)
                (unlink_all (rejectedFiles k cfg req st) (after_resolve req st)) of
           Inl e \<Rightarrow>
             (unlink_all (req_files req) (unlink_all (rejectedFiles k cfg req st) (after_resolve req st)),
              Redirect (home k) (Error (error_message e)))
         | Inr st3 \<Rightarrow>
             (st3,
              Redirect (home k)
                (Message (success_message k (u_name (resolved req st))
                   (length (acceptedFiles k cfg req st)) (length (rejectedFiles k cfg req st)))))))"
proof -
  obtain st1 u where g: "getOrCreateUploader (trim (req_name req)) st = (st1, u)"
    by (cases "getOrCreateUploader (trim (req_name req)) st")
  have r: "resolved req st = u" and a: "after_resolve req st = st1"
    using g by (simp_all add: resolved_def after_resolve_def)
  have rg: "remainingGlobal k cfg st1 = remainingGlobal k cfg st"
    using remainingGlobal_getOrCreateUploader[of k cfg "trim (req_name req)" st] g by simp
  have al: "allowed_for k cfg req st = allowedNow k cfg (u_id u) st1"
    by (simp add: allowed_for_def r a)
  show ?thesis
    using assms
    by (simp add: upload_def Let_def g rg acceptedFiles_def rejectedFiles_def al r a
        split: sum.split)
qed

lemma table_after_resolve: "table k (after_resolve req st) = table k st"
  and table_seq_after_resolve: "table_seq k (after_resolve req st) = table_seq k st"
  and files_after_resolve: "files (after_resolve req st) = files st"
  by (simp_all add: after_resolve_def table_getOrCreateUploader table_seq_getOrCreateUploader
      getOrCreateUploader_other_fields)

lemma upload_rejected:
  assumes "trim (req_name req) \<noteq> []" and "req_files req \<noteq> []"
    and "js_le (allowed_for k cfg req st) (Num 0)"
  shows "upload k cfg req st =
        (unlink_all (req_files req) (after_resolve req st),
         Redirect (home k)
           (Error (if js_le (remainingGlobal k cfg st) (Num 0) then full_message k
                   else per_person_message cfg k)))"
  using upload_admitted[OF assms(1,2)] assms(3) by simp

lemma upload_rolled_back:
  assumes "trim (req_name req) \<noteq> []" and "req_files req \<noteq> []"
    and "\<not> js_le (allowed_for k cfg req st) (Num 0)"
    and "\<exists>f \<in> set (acceptedFiles k cfg req st). file_name f = None"
  shows "upload k cfg req st =
        (unlink_all (req_files req) (unlink_all (rejectedFiles k cfg req st) (after_resolve req st)),
         Redirect (home k) (Error (error_message (NotNull (plural k @ ''.filename'')))))"
  using upload_admitted[OF assms(1,2), of k cfg st] assms(3) transaction_failed[OF assms(4)]
  by simp

lemma upload_persisted:
  assumes "trim (req_name req) \<noteq> []" and "req_files req \<noteq> []"
    and "\<not> js_le (allowed_for k cfg req st) (Num 0)"
    and "\<forall>f \<in> set (acceptedFiles k cfg req st). file_name f \<noteq> None"
  shows "\<exists>new sq'. upload k cfg req st =
        (set_table k (table k st @ new) sq'
           (unlink_all (rejectedFiles k cfg req st) (after_resolve req st)),
         Redirect (home k)
           (Message (success_message k (u_name (resolved req st))
              (length (acceptedFiles k cfg req st)) (length (rejectedFiles k cfg req st)))))
       \<and> map filename new = map (the \<circ> file_name) (acceptedFiles k cfg req st)
       \<and> map original_name new = map originalname (acceptedFiles k cfg req st)
       \<and> (\<forall>m \<in> set new. uploader_id m = u_id (resolved req st) \<and> uploaded_at m = req_now req)
       \<and> (distinct (map m_id (table k st)) \<longrightarrow> distinct (map m_id (table k st @ new)))"
proof -
  let ?st2 = "unlink_all (rejectedFiles k cfg req st) (after_resolve req st)"
  have t: "table k ?st2 = table k st" by (simp add: table_unlink_all table_after_resolve)
  obtain new sq' where n:
    "transaction k (u_id (resolved req st)) (req_now req) (acceptedFiles k cfg req st) ?st2
       = Inr (set_table k (table k ?st2 @ new) sq' ?st2)"
    "map filename new = map (the \<circ> file_name) (acceptedFiles k cfg req st)"
    "map original_name new = map originalname (acceptedFiles k cfg req st)"
    "\<forall>m \<in> set new. uploader_id m = u_id (resolved req st) \<and> uploaded_at m = req_now req"
    "distinct (map m_id (table k ?st2)) \<longrightarrow> distinct (map m_id (table k ?st2 @ new))"
    using transaction_committed[OF assms(4), of k "u_id (resolved req st)" "req_now req" ?st2]
    by blast
  have "upload k cfg req st =
        (set_table k (table k st @ new) sq' ?st2,
         Redirect (home k)
           (Message (success_message k (u_name (resolved req st))
              (length (acceptedFiles k cfg req st)) (length (rejectedFiles k cfg req st)))))"
    using upload_admitted[OF assms(1,2), of k cfg st] assms(3) n(1) t by simp
  then show ?thesis using n(2-5) t by auto
qed

lemma transaction_Inr_fields:
  assumes "transaction k uid now fs st = Inr st3"
  shows "uploaders st3 = uploaders st" "uploaders_seq st3 = uploaders_seq st"
    "files st3 = files st" "dirs st3 = dirs st" "table (other k) st3 = table (other k) st"
    "table_seq (other k) st3 = table_seq (other k) st"
proof -
  obtain rows sq where "st3 = set_table k rows sq st"
    using assms by (auto simp: transaction_def split: sum.splits)
  then show "uploaders st3 = uploaders st" "uploaders_seq st3 = uploaders_seq st"
    "files st3 = files st" "dirs st3 = dirs st" "table (other k) st3 = table (other k) st"
    "table_seq (other k) st3 = table_seq (other k) st"
    by (cases k; simp add: set_table_def table_def table_seq_def other_def)+
qed

lemma after_resolve_fields:
  "dirs (after_resolve req st) = dirs st"
  "table (other k) (after_resolve req st) = table (other k) st"
  by (simp_all add: after_resolve_def table_getOrCreateUploader getOrCreateUploader_other_fields)

lemma upload_uploaders:
  assumes "trim (req_name req) \<noteq> []" and "req_files req \<noteq> []"
  shows "uploaders (fst (upload k cfg req st)) = uploaders (after_resolve req st)
       \<and> uploaders_seq (fst (upload k cfg req st)) = uploaders_seq (after_resolve req st)"
proof (cases "js_le (allowed_for k cfg req st) (Num 0)")
  case True
  then show ?thesis using upload_rejected[OF assms True] by (simp add: unlink_all_fields)
next
  case False
  let ?st2 = "unlink_all (rejectedFiles k cfg req st) (after_resolve req st)"
  show ?thesis
  proof (cases "transaction k (u_id (resolved req st)) (req_now req) (acceptedFiles k cfg req st) ?st2")
    case (Inl e)
    then show ?thesis using upload_admitted[OF assms, of k cfg st] False
      by (simp add: unlink_all_fields)
  next
    case (Inr st3)
    then have "fst (upload k cfg req st) = st3"
      using upload_admitted[OF assms, of k cfg st] False by simp
    then show ?thesis using transaction_Inr_fields(1,2)[OF Inr] by (simp add: unlink_all_fields)
  qed
qed

lemma upload_other_table:
  "table (other k) (fst (upload k cfg req st)) = table (other k) st"
proof (cases "trim (req_name req) \<noteq> [] \<and> req_files req \<noteq> []")
  case False
  show ?thesis
  proof (cases "trim (req_name req) = []")
    case True
    then show ?thesis by (simp add: upload_no_name table_unlink_all)
  next
    case nonempty: False
    then have "req_files req = []" using False by simp
    then show ?thesis using nonempty by (simp add: upload_no_files)
  qed
next
  case True
  then have a: "trim (req_name req) \<noteq> []" "req_files req \<noteq> []" by simp_all
  let ?st2 = "unlink_all (rejectedFiles k cfg req st) (after_resolve req st)"
  show ?thesis
  proof (cases "js_le (allowed_for k cfg req st) (Num 0)")
    case True
    then show ?thesis using upload_rejected[OF a True]
      by (simp add: table_unlink_all after_resolve_fields)
  next
    case False
    show ?thesis
    proof (cases "transaction k (u_id (resolved req st)) (req_now req) (acceptedFiles k cfg req st) ?st2")
      case (Inl e)
      then show ?thesis using upload_admitted[OF a, of k cfg st] False
        by (simp add: table_unlink_all after_resolve_fields)
    next
      case (Inr st3)
      then have "fst (upload k cfg req st) = st3"
        using upload_admitted[OF a, of k cfg st] False by simp
      then show ?thesis using transaction_Inr_fields(5)[OF Inr]
        by (simp add: table_unlink_all after_resolve_fields)
    qed
  qed
qed

lemma getOrCreateUploader_cong:
  "uploaders st' = uploaders st \<Longrightarrow> uploaders_seq st' = uploaders_seq st \<Longrightarrow>
     snd (getOrCreateUploader b st') = snd (getOrCreateUploader b st)"
  by (simp add: getOrCreateUploader_def Let_def split: option.splits)

lemma upload_then_resolved:
  assumes "trim (req_name r1) \<noteq> []" and "req_files r1 \<noteq> []"
    and "normalizeName (req_name r1) = normalizeName (req_name r2)"
  shows "resolved r2 (fst (upload k cfg r1 st)) = resolved r1 st"
proof -
  let ?a = "trim (req_name r1)" and ?b = "trim (req_name r2)"
  have n: "normalizeName ?a = normalizeName ?b" using assms(3) by (simp add: trim_normalize)
  have "resolved r2 (fst (upload k cfg r1 st)) = snd (getOrCreateUploader ?b (after_resolve r1 st))"
    unfolding resolved_def using upload_uploaders[OF assms(1,2), of k cfg st]
    by (intro getOrCreateUploader_cong) simp_all
  also have "\<dots> = snd (getOrCreateUploader ?a st)"
    unfolding after_resolve_def using getOrCreateUploader_again[OF n, of st] by simp
  finally show ?thesis by (simp add: resolved_def)
qed

section \<open>Names that normalize alike resolve to one uploader\<close>

text \<open>
  C5. When two display names have the same normalization (trimmed, lower-cased), resolving
  the second after the first returns the uploader row of the first and changes nothing;
  this stays so in every later state that still holds that row and keeps normalized names
  unique. Resolving a name keeps normalized names unique and adds a row only when no row
  has the normalized name. An upload under the first name followed by a lookup under the
  second finds the same uploader.
\<close>

theorem same_normalized_name_same_uploader:
  assumes "normalizeName a = normalizeName b"
  shows "getOrCreateUploader b (fst (getOrCreateUploader a st)) = getOrCreateUploader a st
    \<and> u_id (snd (getOrCreateUploader b (fst (getOrCreateUploader a st))))
          = u_id (snd (getOrCreateUploader a st))
    \<and> (distinct (map normalized_name (uploaders st'))
          \<and> snd (getOrCreateUploader a st) \<in> set (uploaders st')
        \<longrightarrow> getOrCreateUploader b st' = (st', snd (getOrCreateUploader a st)))
    \<and> (distinct (map normalized_name (uploaders st))
        \<longrightarrow> distinct (map normalized_name (uploaders (fst (getOrCreateUploader a st)))))
    \<and> uploaders (fst (getOrCreateUploader a st)) =
          (if \<exists>u \<in> set (uploaders st). normalized_name u = normalizeName a then uploaders st
           else uploaders st @ [snd (getOrCreateUploader a st)])
    \<and> normalized_name (snd (getOrCreateUploader a st)) = normalizeName a
    \<and> (req_name r1 = a \<and> req_name r2 = b \<and> trim a \<noteq> [] \<and> req_files r1 \<noteq> []
        \<longrightarrow> resolved r2 (fst (upload k cfg r1 st)) = resolved r1 st)"
proof -
  have 1: "getOrCreateUploader b (fst (getOrCreateUploader a st)) = getOrCreateUploader a st"
    using assms by (rule getOrCreateUploader_again)
  have 2: "resolved r2 (fst (upload k cfg r1 st)) = resolved r1 st"
    if "req_name r1 = a \<and> req_name r2 = b \<and> trim a \<noteq> [] \<and> req_files r1 \<noteq> []"
    using that assms by (intro upload_then_resolved) simp_all
  show ?thesis
    using 1 2 getOrCreateUploader_later[OF assms, of st' st]
      getOrCreateUploader_distinct_names[of st a] getOrCreateUploader_creates[of a st]
      getOrCreateUploader_result[of a st]
    by simp
qed

theorem same_normalized_name_same_uploader_witness:
  "normalizeName ''Alice '' = normalizeName ''alice''
   \<and> getOrCreateUploader ''alice'' (fst (getOrCreateUploader ''Alice '' ex_empty))
       = getOrCreateUploader ''Alice '' ex_empty
   \<and> snd (getOrCreateUploader ''Alice '' ex_empty)
       = \<lparr>u_id = 1, u_name = ''Alice'', normalized_name = ''alice''\<rparr>
   \<and> resolved (ex_request ''alice'' [ex_b]) (fst (upload Video ex_cfg (ex_request ''Alice '' [ex_a]) ex_empty))
       = \<lparr>u_id = 1, u_name = ''Alice'', normalized_name = ''alice''\<rparr>"
proof -
  have n: "normalizeName ''Alice '' = normalizeName ''alice''" by code_simp
  have u: "snd (getOrCreateUploader ''Alice '' ex_empty)
       = \<lparr>u_id = 1, u_name = ''Alice'', normalized_name = ''alice''\<rparr>" by code_simp
  have r: "resolved (ex_request ''Alice '' [ex_a]) ex_empty
       = \<lparr>u_id = 1, u_name = ''Alice'', normalized_name = ''alice''\<rparr>" by code_simp
  have t: "trim ''Alice '' \<noteq> []" by code_simp
  have "resolved (ex_request ''alice'' [ex_b])
          (fst (upload Video ex_cfg (ex_request ''Alice '' [ex_a]) ex_empty))
        = resolved (ex_request ''Alice '' [ex_a]) ex_empty"
    using same_normalized_name_same_uploader[OF n, of ex_empty ex_empty
        "ex_request ''Alice '' [ex_a]" "ex_request ''alice'' [ex_b]" Video ex_cfg] t
    by (simp add: ex_request_def)
  then show ?thesis
    using same_normalized_name_same_uploader[OF n, of ex_empty ex_empty
        "ex_request ''Alice '' [ex_a]" "ex_request ''alice'' [ex_b]" Video ex_cfg] n u r
    by simp
qed

section \<open>Admission, persistence and rejection of an upload\<close>










text \<open>
  C2. For a request that is admitted (a name, at least one file, a positive number
  allowed), the accepted files' rows are inserted by one transaction. If every accepted
  file can be stored, the table grows by exactly their rows, in order. If one of them
  cannot, the table and its row counter are as before the request, every file of the
  request is gone from disk, and the response is an error. The table of the other kind
  is never touched. The uploader row, resolved before the transaction, is outside it and
  stays in both cases.
\<close>

theorem upload_transaction_atomic:
  assumes "trim (req_name req) \<noteq> []" and "req_files req \<noteq> []"
    and "\<not> js_le (allowed_for k cfg req st) (Num 0)"
  shows "((\<forall>f \<in> set (acceptedFiles k cfg req st). file_name f \<noteq> None) \<longrightarrow>
            (\<exists>new. table k (fst (upload k cfg req st)) = table k st @ new
               \<and> length new = length (acceptedFiles k cfg req st)
               \<and> map filename new = map (the \<circ> file_name) (acceptedFiles k cfg req st)
               \<and> map original_name new = map originalname (acceptedFiles k cfg req st)
               \<and> (\<forall>m \<in> set new. uploader_id m = u_id (resolved req st))))
       \<and> ((\<exists>f \<in> set (acceptedFiles k cfg req st). file_name f = None) \<longrightarrow>
            table k (fst (upload k cfg req st)) = table k st
            \<and> table_seq k (fst (upload k cfg req st)) = table_seq k st
            \<and> (\<forall>f \<in> set (req_files req). path f \<notin> files (fst (upload k cfg req st)))
            \<and> snd (upload k cfg req st)
                 = Redirect (home k) (Error (error_message (NotNull (plural k @ ''.filename'')))))
       \<and> table (other k) (fst (upload k cfg req st)) = table (other k) st
       \<and> uploaders (fst (upload k cfg req st)) = uploaders (after_resolve req st)"
proof -
  have ok: "\<exists>new. table k (fst (upload k cfg req st)) = table k st @ new
               \<and> length new = length (acceptedFiles k cfg req st)
               \<and> map filename new = map (the \<circ> file_name) (acceptedFiles k cfg req st)
               \<and> map original_name new = map originalname (acceptedFiles k cfg req st)
               \<and> (\<forall>m \<in> set new. uploader_id m = u_id (resolved req st))"
    if h: "\<forall>f \<in> set (acceptedFiles k cfg req st). file_name f \<noteq> None"
  proof -
    obtain new sq' where u:
      "upload k cfg req st =
        (set_table k (table k st @ new) sq'
           (unlink_all (rejectedFiles k cfg req st) (after_resolve req st)),
         Redirect (home k)
           (Message (success_message k (u_name (resolved req st))
              (length (acceptedFiles k cfg req st)) (length (rejectedFiles k cfg req st)))))"
      "map filename new = map (the \<circ> file_name) (acceptedFiles k cfg req st)"
      "map original_name new = map originalname (acceptedFiles k cfg req st)"
      "\<forall>m \<in> set new. uploader_id m = u_id (resolved req st) \<and> uploaded_at m = req_now req"
      using upload_persisted[OF assms h] by blast
    have "length new = length (acceptedFiles k cfg req st)"
      using u(2) map_eq_imp_length_eq by blast
    moreover have "table k (fst (upload k cfg req st)) = table k st @ new"
      using u(1) by (simp add: set_table_fields)
    ultimately show ?thesis using u(2,3,4) by auto
  qed
  have bad: "table k (fst (upload k cfg req st)) = table k st
            \<and> table_seq k (fst (upload k cfg req st)) = table_seq k st
            \<and> (\<forall>f \<in> set (req_files req). path f \<notin> files (fst (upload k cfg req st)))
            \<and> snd (upload k cfg req st)
                 = Redirect (home k) (Error (error_message (NotNull (plural k @ ''.filename''))))"
    if h: "\<exists>f \<in> set (acceptedFiles k cfg req st). file_name f = None"
    using upload_rolled_back[OF assms h]
    by (simp add: table_unlink_all table_seq_unlink_all table_after_resolve
        table_seq_after_resolve unlink_all_fields)
  show ?thesis
    using ok bad upload_other_table[of k cfg req st] upload_uploaders[OF assms(1,2), of k cfg st]
    by blast
qed

theorem upload_transaction_atomic_witness:
  "acceptedFiles Video ex_cfg (ex_request ''Bob'' [ex_a, ex_broken, ex_c]) ex_empty = [ex_a, ex_broken]
   \<and> table Video (fst (upload Video ex_cfg (ex_request ''Bob'' [ex_a, ex_broken, ex_c]) ex_empty)) = []
   \<and> ''up/a'' \<notin> files (fst (upload Video ex_cfg (ex_request ''Bob'' [ex_a, ex_broken, ex_c]) ex_empty))
   \<and> ''up/x'' \<notin> files (fst (upload Video ex_cfg (ex_request ''Bob'' [ex_a, ex_broken, ex_c]) ex_empty))
   \<and> ''up/c'' \<notin> files (fst (upload Video ex_cfg (ex_request ''Bob'' [ex_a, ex_broken, ex_c]) ex_empty))
   \<and> map filename (table Video (fst (upload Video ex_cfg (ex_request ''Bob'' [ex_a, ex_b]) ex_empty)))
       = [''a'', ''b'']"
proof -
  let ?R = "ex_request ''Bob'' [ex_a, ex_broken, ex_c]"
  let ?S = "ex_request ''Bob'' [ex_a, ex_b]"
  have tbl: "table Video ex_empty = []" by (simp add: table_def ex_empty_def)
  have r1: "trim (req_name ?R) \<noteq> []" and r2: "req_files ?R \<noteq> []"
    and r3: "\<not> js_le (allowed_for Video ex_cfg ?R ex_empty) (Num 0)"
    and r4: "acceptedFiles Video ex_cfg ?R ex_empty = [ex_a, ex_broken]"
    by code_simp+
  have s1: "trim (req_name ?S) \<noteq> []" and s2: "req_files ?S \<noteq> []"
    and s3: "\<not> js_le (allowed_for Video ex_cfg ?S ex_empty) (Num 0)"
    and s4: "acceptedFiles Video ex_cfg ?S ex_empty = [ex_a, ex_b]"
    by code_simp+
  have fr: "req_files ?R = [ex_a, ex_broken, ex_c]" by (simp add: ex_request_def)
  have a: "table Video (fst (upload Video ex_cfg ?R ex_empty)) = []
     \<and> (\<forall>f \<in> set [ex_a, ex_broken, ex_c]. path f \<notin> files (fst (upload Video ex_cfg ?R ex_empty)))"
    using upload_transaction_atomic[OF r1 r2 r3] r4 tbl fr by (simp add: ex_broken_def)
  have b: "map filename (table Video (fst (upload Video ex_cfg ?S ex_empty))) = [''a'', ''b'']"
    using upload_transaction_atomic[OF s1 s2 s3] s4 tbl by (auto simp: ex_a_def ex_b_def)
  from a b r4 show ?thesis by (simp add: ex_a_def ex_broken_def ex_c_def)
qed

lemma full_not_per_person: "full_message k \<noteq> per_person_message cfg k"
  by (cases k) (simp_all add: full_message_def per_person_message_def)

lemma per_person_message_names_limit:
  "per_person_message cfg k =
     ''You have already uploaded your maximum of '' @ String (per_person_limit cfg k) @ '' ''
       @ plural k @ ''.''"
proof (cases k)
  case Photo
  have "digits 10 = ''10''" by code_simp
  then show ?thesis using Photo
    by (simp add: per_person_message_def per_person_limit_def MAX_PHOTOS_PER_PERSON_def plural_def)
next
  case Video
  then show ?thesis by (simp add: per_person_message_def per_person_limit_def plural_def)
qed

text \<open>
  C3. When a batch is rejected as a whole, the error is the gallery-full message if the
  remaining global capacity is at most 0, and the per-person message otherwise. The
  per-person message names the per-person limit, and it differs from the gallery-full
  message, so each message tells its condition.
\<close>

theorem upload_rejection_reason:
  assumes "trim (req_name req) \<noteq> []" and "req_files req \<noteq> []"
    and "js_le (allowed_for k cfg req st) (Num 0)"
  shows "snd (upload k cfg req st) =
           Redirect (home k)
             (Error (if js_le (remainingGlobal k cfg st) (Num 0) then full_message k
                     else per_person_message cfg k))
       \<and> (snd (upload k cfg req st) = Redirect (home k) (Error (full_message k))
            \<longleftrightarrow> js_le (remainingGlobal k cfg st) (Num 0))
       \<and> (snd (upload k cfg req st) = Redirect (home k) (Error (per_person_message cfg k))
            \<longleftrightarrow> \<not> js_le (remainingGlobal k cfg st) (Num 0))
       \<and> per_person_message cfg k =
            ''You have already uploaded your maximum of '' @ String (per_person_limit cfg k)
              @ '' '' @ plural k @ ''.''
       \<and> table k (fst (upload k cfg req st)) = table k st"
  using upload_rejected[OF assms] full_not_per_person[of k cfg] per_person_message_names_limit[of cfg k]
  by (auto simp: table_unlink_all table_after_resolve)

theorem upload_rejection_reason_witness:
  "snd (upload Video ex_cfg (ex_request ''alice'' [ex_broken]) ex_alice)
     = Redirect ''/?tab=videos'' (Error ''You have already uploaded your maximum of 2 videos.'')
   \<and> snd (upload Video ex_cfg (ex_request ''Carol'' [ex_broken]) ex_full)
     = Redirect ''/?tab=videos'' (Error ''Video upload limit reached: this gallery is full.'')
   \<and> snd (upload Video ex_cfg (ex_request ''Alice'' [ex_broken]) ex_full)
     = Redirect ''/?tab=videos'' (Error ''Video upload limit reached: this gallery is full.'')"
proof -
  let ?A = "ex_request ''alice'' [ex_broken]"
  let ?C = "ex_request ''Carol'' [ex_broken]"
  let ?B = "ex_request ''Alice'' [ex_broken]"
  have h: "home Video = ''/?tab=videos''" by code_simp
  have a1: "trim (req_name ?A) \<noteq> []" and a2: "req_files ?A \<noteq> []"
    and a3: "js_le (allowed_for Video ex_cfg ?A ex_alice) (Num 0)"
    and a4: "\<not> js_le (remainingGlobal Video ex_cfg ex_alice) (Num 0)"
    and a5: "per_person_message ex_cfg Video = ''You have already uploaded your maximum of 2 videos.''"
    by code_simp+
  have c1: "trim (req_name ?C) \<noteq> []" and c2: "req_files ?C \<noteq> []"
    and c3: "js_le (allowed_for Video ex_cfg ?C ex_full) (Num 0)"
    and c4: "js_le (remainingGlobal Video ex_cfg ex_full) (Num 0)"
    and c5: "full_message Video = ''Video upload limit reached: this gallery is full.''"
    by code_simp+
  have b1: "trim (req_name ?B) \<noteq> []" and b2: "req_files ?B \<noteq> []"
    and b3: "js_le (allowed_for Video ex_cfg ?B ex_full) (Num 0)"
    by code_simp+
  have "snd (upload Video ex_cfg ?A ex_alice)
          = Redirect ''/?tab=videos'' (Error ''You have already uploaded your maximum of 2 videos.'')"
    using upload_rejection_reason[OF a1 a2 a3] a4 a5 h by simp
  moreover have "snd (upload Video ex_cfg ?C ex_full)
          = Redirect ''/?tab=videos'' (Error ''Video upload limit reached: this gallery is full.'')"
    using upload_rejection_reason[OF c1 c2 c3] c4 c5 h by simp
  moreover have "snd (upload Video ex_cfg ?B ex_full)
          = Redirect ''/?tab=videos'' (Error ''Video upload limit reached: this gallery is full.'')"
    using upload_rejection_reason[OF b1 b2 b3] c4 c5 h by simp
  ultimately show ?thesis by blast
qed

section \<open>Deletion collects orphan uploaders\<close>

lemma cleanupOrphanUploaders_fields:
  "photos (cleanupOrphanUploaders st) = photos st" "videos (cleanupOrphanUploaders st) = videos st"
  "files (cleanupOrphanUploaders st) = files st" "dirs (cleanupOrphanUploaders st) = dirs st"
  by (simp_all add: cleanupOrphanUploaders_def)


lemma cleanupOrphanUploaders_keeps:
  "u \<in> set (uploaders (cleanupOrphanUploaders st)) \<longleftrightarrow>
     u \<in> set (uploaders st) \<and> (\<exists>m \<in> set (photos st) \<union> set (videos st). uploader_id m = u_id u)"
proof -
  have "u_id u \<in> set (map uploader_id (photos st)) \<union> set (map uploader_id (videos st))
          \<longleftrightarrow> (\<exists>m \<in> set (photos st) \<union> set (videos st). uploader_id m = u_id u)"
    by (simp add: image_iff bex_Un) metis
  then show ?thesis by (simp add: cleanupOrphanUploaders_def)
qed

lemma cleanupOrphanUploaders_no_orphans: "no_orphans (cleanupOrphanUploaders st)"
  unfolding no_orphans_def cleanupOrphanUploaders_fields
  using cleanupOrphanUploaders_keeps[of _ st] by blast

lemma media_union: "set (photos st) \<union> set (videos st) = set (table k st) \<union> set (table (other k) st)"
  by (cases k) (auto simp: table_def other_def)

lemma set_table_other_k: "table (other k) (set_table k rows sq st) = table (other k) st"
  by (cases k) (simp_all add: table_def other_def set_table_def)

lemma fold_safeUnlink_fields:
  "uploaders (fold (\<lambda>row. safeUnlink (g row)) rows st) = uploaders st"
  "photos (fold (\<lambda>row. safeUnlink (g row)) rows st) = photos st"
  "videos (fold (\<lambda>row. safeUnlink (g row)) rows st) = videos st"
  "photos_seq (fold (\<lambda>row. safeUnlink (g row)) rows st) = photos_seq st"
  "videos_seq (fold (\<lambda>row. safeUnlink (g row)) rows st) = videos_seq st"
  "files (fold (\<lambda>row. safeUnlink (g row)) rows st) = files st - g ` set rows"
  by (induction rows arbitrary: st) (auto simp: safeUnlink_fields)

lemma delete_one_invalid:
  "delete_one k cfg NaN st = (st, Redirect (admin_page k) (Error (''Invalid '' @ noun k @ '' ID.'')))"
  by (simp add: delete_one_def)

lemma delete_one_not_found:
  "\<not> (\<exists>m \<in> set (table k st). int (m_id m) = i) \<Longrightarrow>
     delete_one k cfg (Num i) st = (st, Redirect (admin_page k) (Error (Noun k @ '' not found.'')))"
proof -
  assume "\<not> (\<exists>m \<in> set (table k st). int (m_id m) = i)"
  then have "find (\<lambda>m. int (m_id m) = i) (table k st) = None" by (simp add: find_None_iff)
  then show ?thesis by (simp add: delete_one_def)
qed

lemma delete_one_found:
  assumes "\<exists>m \<in> set (table k st). int (m_id m) = i"
  shows "\<exists>row. row \<in> set (table k st) \<and> int (m_id row) = i
     \<and> delete_one k cfg (Num i) st =
        (cleanupOrphanUploaders
           (safeUnlink (path_join (uploadDir cfg) (filename row))
              (set_table k (filter (\<lambda>m. int (m_id m) \<noteq> i) (table k st)) (table_seq k st) st)),
         Redirect (admin_page k) (Message (Noun k @ '' deleted.'')))"
proof -
  obtain row where r: "find (\<lambda>m. int (m_id m) = i) (table k st) = Some row"
    using assms by (cases "find (\<lambda>m. int (m_id m) = i) (table k st)") (auto simp: find_None_iff)
  then have "row \<in> set (table k st) \<and> int (m_id row) = i" by (auto simp: find_Some_iff)
  then show ?thesis using r by (auto simp: delete_one_def Let_def)
qed

lemma delete_all_unfold:
  "delete_all k cfg st =
     (cleanupOrphanUploaders
        (set_table k [] (table_seq k st)
           (fold (\<lambda>row. safeUnlink (path_join (uploadDir cfg) (filename row))) (table k st) st)),
      Redirect (admin_page k) (Message (''All '' @ plural k @ '' deleted.'')))"
proof -
  have "table_seq k (fold (\<lambda>row. safeUnlink (path_join (uploadDir cfg) (filename row))) (table k st) st)
          = table_seq k st"
    by (cases k) (simp_all add: table_seq_def fold_safeUnlink_fields)
  then show ?thesis by (simp add: delete_all_def Let_def)
qed

lemma table_cleanup: "table k (cleanupOrphanUploaders st) = table k st"
  by (cases k) (simp_all add: table_def cleanupOrphanUploaders_fields)

lemma table_safeUnlink: "table k (safeUnlink p st) = table k st"
  by (cases k) (simp_all add: table_def safeUnlink_fields)

lemma table_fold_safeUnlink: "table k (fold (\<lambda>row. safeUnlink (g row)) rows st) = table k st"
  by (cases k) (simp_all add: table_def fold_safeUnlink_fields)

text \<open>
  C4. After a delete-one that finds its record, and after every delete-all, no uploader
  is left without a photo or a video. An uploader who still owns a record of either kind
  after the deletion is kept. A delete-one with an invalid id or an id without a record
  deletes nothing and leaves the state as it is.
\<close>

theorem delete_collects_orphan_uploaders:
  "((\<exists>m \<in> set (table k st). int (m_id m) = i) \<longrightarrow>
       no_orphans (fst (delete_one k cfg (Num i) st))
       \<and> table k (fst (delete_one k cfg (Num i) st)) = filter (\<lambda>m. int (m_id m) \<noteq> i) (table k st)
       \<and> table (other k) (fst (delete_one k cfg (Num i) st)) = table (other k) st
       \<and> (\<forall>u \<in> set (uploaders st).
             (\<exists>m \<in> set (table k st). int (m_id m) \<noteq> i \<and> uploader_id m = u_id u)
             \<or> (\<exists>m \<in> set (table (other k) st). uploader_id m = u_id u)
             \<longrightarrow> u \<in> set (uploaders (fst (delete_one k cfg (Num i) st)))))
   \<and> (\<not> (\<exists>m \<in> set (table k st). int (m_id m) = i) \<longrightarrow> fst (delete_one k cfg (Num i) st) = st)
   \<and> fst (delete_one k cfg NaN st) = st
   \<and> no_orphans (fst (delete_all k cfg st))
   \<and> table k (fst (delete_all k cfg st)) = []
   \<and> table (other k) (fst (delete_all k cfg st)) = table (other k) st
   \<and> (\<forall>u \<in> set (uploaders st).
         (\<exists>m \<in> set (table (other k) st). uploader_id m = u_id u)
         \<longrightarrow> u \<in> set (uploaders (fst (delete_all k cfg st))))"
proof -
  have one: "no_orphans (fst (delete_one k cfg (Num i) st))
       \<and> table k (fst (delete_one k cfg (Num i) st)) = filter (\<lambda>m. int (m_id m) \<noteq> i) (table k st)
       \<and> table (other k) (fst (delete_one k cfg (Num i) st)) = table (other k) st
       \<and> (\<forall>u \<in> set (uploaders st).
             (\<exists>m \<in> set (table k st). int (m_id m) \<noteq> i \<and> uploader_id m = u_id u)
             \<or> (\<exists>m \<in> set (table (other k) st). uploader_id m = u_id u)
             \<longrightarrow> u \<in> set (uploaders (fst (delete_one k cfg (Num i) st))))"
    if found: "\<exists>m \<in> set (table k st). int (m_id m) = i"
  proof -
    obtain row :: media where d: "delete_one k cfg (Num i) st =
        (cleanupOrphanUploaders
           (safeUnlink (path_join (uploadDir cfg) (filename row))
              (set_table k (filter (\<lambda>m. int (m_id m) \<noteq> i) (table k st)) (table_seq k st) st)),
         Redirect (admin_page k) (Message (Noun k @ '' deleted.'')))"
      using delete_one_found[OF found, of cfg] by blast
    let ?st2 = "safeUnlink (path_join (uploadDir cfg) (filename row))
              (set_table k (filter (\<lambda>m. int (m_id m) \<noteq> i) (table k st)) (table_seq k st) st)"
    have e: "fst (delete_one k cfg (Num i) st) = cleanupOrphanUploaders ?st2" using d by simp
    have tk: "table k ?st2 = filter (\<lambda>m. int (m_id m) \<noteq> i) (table k st)"
      by (simp add: table_safeUnlink set_table_fields)
    have to: "table (other k) ?st2 = table (other k) st"
      by (simp add: table_safeUnlink set_table_other_k)
    have up: "uploaders ?st2 = uploaders st" by (simp add: safeUnlink_fields set_table_fields)
    have keep: "u \<in> set (uploaders (cleanupOrphanUploaders ?st2))"
      if "u \<in> set (uploaders st)"
        and "(\<exists>m \<in> set (table k st). int (m_id m) \<noteq> i \<and> uploader_id m = u_id u)
             \<or> (\<exists>m \<in> set (table (other k) st). uploader_id m = u_id u)" for u
    proof -
      have "\<exists>m \<in> set (table k ?st2) \<union> set (table (other k) ?st2). uploader_id m = u_id u"
        using that(2) unfolding tk to by auto
      then have "\<exists>m \<in> set (photos ?st2) \<union> set (videos ?st2). uploader_id m = u_id u"
        using media_union[of ?st2 k] by simp
      then show ?thesis using that(1) up by (simp add: cleanupOrphanUploaders_keeps)
    qed
    show ?thesis
      unfolding e using cleanupOrphanUploaders_no_orphans[of ?st2] tk to keep
      by (simp add: table_cleanup)
  qed
  let ?s2 = "set_table k [] (table_seq k st)
           (fold (\<lambda>row. safeUnlink (path_join (uploadDir cfg) (filename row))) (table k st) st)"
  have e: "fst (delete_all k cfg st) = cleanupOrphanUploaders ?s2"
    by (simp add: delete_all_unfold)
  have tk: "table k ?s2 = []" by (simp add: set_table_fields)
  have to: "table (other k) ?s2 = table (other k) st"
    by (simp add: set_table_other_k table_fold_safeUnlink)
  have up: "uploaders ?s2 = uploaders st" by (simp add: set_table_fields fold_safeUnlink_fields)
  have keep: "u \<in> set (uploaders (cleanupOrphanUploaders ?s2))"
    if "u \<in> set (uploaders st)" and "\<exists>m \<in> set (table (other k) st). uploader_id m = u_id u" for u
  proof -
    have "\<exists>m \<in> set (table k ?s2) \<union> set (table (other k) ?s2). uploader_id m = u_id u"
      using that(2) unfolding tk to by auto
    then have "\<exists>m \<in> set (photos ?s2) \<union> set (videos ?s2). uploader_id m = u_id u"
      using media_union[of ?s2 k] by simp
    then show ?thesis using that(1) up by (simp add: cleanupOrphanUploaders_keeps)
  qed
  have all: "no_orphans (fst (delete_all k cfg st))
     \<and> table k (fst (delete_all k cfg st)) = []
     \<and> table (other k) (fst (delete_all k cfg st)) = table (other k) st
     \<and> (\<forall>u \<in> set (uploaders st).
         (\<exists>m \<in> set (table (other k) st). uploader_id m = u_id u)
         \<longrightarrow> u \<in> set (uploaders (fst (delete_all k cfg st))))"
    unfolding e using cleanupOrphanUploaders_no_orphans[of ?s2] tk to keep
    by (simp add: table_cleanup)
  show ?thesis using one all delete_one_not_found[of k st i cfg] delete_one_invalid[of k cfg st]
    by simp
qed

theorem delete_collects_orphan_uploaders_witness:
  "map u_name (uploaders ex_full) = [''Alice'', ''Bob'']
   \<and> map u_name (uploaders (fst (delete_one Video ex_cfg (Num 3) ex_full))) = [''Alice'']
   \<and> no_orphans (fst (delete_one Video ex_cfg (Num 3) ex_full))
   \<and> ex_alice_row \<in> set (uploaders (fst (delete_one Video ex_cfg (Num 1) ex_full)))
   \<and> ex_bob_row \<in> set (uploaders (fst (delete_all Photo ex_cfg ex_full)))
   \<and> no_orphans (fst (delete_all Video ex_cfg ex_full))
   \<and> uploaders (fst (delete_all Video ex_cfg ex_full)) = []"
proof -
  have f3: "\<exists>m \<in> set (table Video ex_full). int (m_id m) = 3"
    and f1: "\<exists>m \<in> set (table Video ex_full). int (m_id m) = 1"
    and a: "ex_alice_row \<in> set (uploaders ex_full)"
    and a2: "\<exists>m \<in> set (table Video ex_full). int (m_id m) \<noteq> 1 \<and> uploader_id m = u_id ex_alice_row"
    and b: "ex_bob_row \<in> set (uploaders ex_full)"
    and b2: "\<exists>m \<in> set (table (other Photo) ex_full). uploader_id m = u_id ex_bob_row"
    by code_simp+
  have n0: "map u_name (uploaders ex_full) = [''Alice'', ''Bob'']"
    and n1: "map u_name (uploaders (fst (delete_one Video ex_cfg (Num 3) ex_full))) = [''Alice'']"
    and n2: "uploaders (fst (delete_all Video ex_cfg ex_full)) = []"
    by code_simp+
  have "no_orphans (fst (delete_one Video ex_cfg (Num 3) ex_full))"
    using delete_collects_orphan_uploaders[of Video ex_full 3 ex_cfg] f3 by blast
  moreover have "ex_alice_row \<in> set (uploaders (fst (delete_one Video ex_cfg (Num 1) ex_full)))"
    using delete_collects_orphan_uploaders[of Video ex_full 1 ex_cfg] f1 a a2 by blast
  moreover have "ex_bob_row \<in> set (uploaders (fst (delete_all Photo ex_cfg ex_full)))"
    using delete_collects_orphan_uploaders[of Photo ex_full 1 ex_cfg] b b2 by blast
  moreover have "no_orphans (fst (delete_all Video ex_cfg ex_full))"
    using delete_collects_orphan_uploaders[of Video ex_full 1 ex_cfg] by blast
  ultimately show ?thesis using n0 n1 n2 by blast
qed

section \<open>Staged names and the copy loop\<close>

lemma set_query_newest_first: "set (query_newest_first rows) = set rows"
  by (simp add: query_newest_first_def)

lemma query_newest_first_Nil: "query_newest_first rows = [] \<longleftrightarrow> rows = []"
  using set_query_newest_first[of rows] by (metis set_empty)

lemma distinct_query_newest_first:
  "distinct (map f (query_newest_first rows)) \<longleftrightarrow> distinct (map f rows)"
  by (simp add: query_newest_first_def distinct_map)

lemma stagedName_prefix:
  "takeWhile is_digit (stagedName k m) = padStart 4 (CHR ''0'') (digits (m_id m))"
proof -
  let ?p = "padStart 4 (CHR ''0'') (digits (m_id m))"
  let ?r = "CHR ''-'' # sanitizeArchiveFilename
           (if original_name m \<noteq> [] then original_name m else fallbackName k m)"
  have s: "stagedName k m = ?p @ ?r" by (simp add: stagedName_def)
  have d: "\<forall>c\<in>set ?p. is_digit c" using padStart_all_digit by blast
  have r: "?r = [] \<or> \<not> is_digit (hd ?r)" by (simp add: not_digit_dash)
  show ?thesis unfolding s using digits_then_rest(1)[OF d r] .
qed

lemma staged_number_stagedName: "staged_number (stagedName k m) = m_id m"
  by (simp add: staged_number_def stagedName_prefix decimal_padStart)

lemma stagedName_inj: "stagedName k m = stagedName k m' \<Longrightarrow> m_id m = m_id m'"
  using staged_number_stagedName by metis

lemma distinct_stagedName:
  assumes "distinct (map m_id rows)"
  shows "distinct (map (stagedName k) rows)"
proof -
  have "map staged_number (map (stagedName k) rows) = map m_id rows"
    by (simp add: staged_number_stagedName)
  then have "distinct (map staged_number (map (stagedName k) rows))" using assms by (simp only:)
  then show ?thesis by (auto simp: distinct_map dest: inj_on_imageI2)
qed

lemma padStart_length: "4 \<le> length (padStart 4 c s)"
  by (simp add: padStart_def)

subsection \<open>The copy loop\<close>

lemma copy_files_Inr:
  "copy_files k cfg e tempDir rows (st, n) = Inr (st', n') \<Longrightarrow>
     files st' = files st
     \<and> n' = n + length (filter (present cfg st) rows)
     \<and> (\<forall>d. d \<noteq> tempDir \<longrightarrow> dirs st' d = dirs st d)
     \<and> (\<forall>es. dirs st tempDir = Some es \<longrightarrow>
           dirs st' tempDir = Some (es \<union> stagedName k ` {m \<in> set rows. present cfg st m}))
     \<and> (filter (present cfg st) rows = [] \<longrightarrow> st' = st)
     \<and> (\<forall>m \<in> set rows. present cfg st m \<longrightarrow> copy_ok e (path_join (uploadDir cfg) (filename m)))"
proof (induction rows arbitrary: st n)
  case Nil
  then show ?case by simp
next
  case (Cons m ms)
  show ?case
  proof (cases "present cfg st m")
    case False
    then have "copy_files k cfg e tempDir ms (st, n) = Inr (st', n')"
      using Cons.prems by (simp add: present_def Let_def)
    from Cons.IH[OF this] show ?thesis using False by auto
  next
    case True
    then have src: "path_join (uploadDir cfg) (filename m) \<in> files st" by (simp add: present_def)
    then obtain es where es: "dirs st tempDir = Some es"
      using Cons.prems by (cases "dirs st tempDir") (simp_all add: Let_def)
    have ok: "copy_ok e (path_join (uploadDir cfg) (filename m))"
      using Cons.prems src es by (simp add: Let_def split: if_splits)
    let ?st1 = "st\<lparr>dirs := (dirs st)(tempDir \<mapsto> insert (stagedName k m) es)\<rparr>"
    have rec: "copy_files k cfg e tempDir ms (?st1, Suc n) = Inr (st', n')"
      using Cons.prems src es ok by (simp add: Let_def)
    have same: "present cfg ?st1 = present cfg st" by (simp add: present_def fun_eq_iff)
    have d1: "dirs ?st1 tempDir = Some (insert (stagedName k m) es)" by simp
    from Cons.IH[OF rec] have ih:
      "files st' = files ?st1" "n' = Suc n + length (filter (present cfg st) ms)"
      "\<forall>d. d \<noteq> tempDir \<longrightarrow> dirs st' d = dirs ?st1 d"
      "dirs st' tempDir = Some (insert (stagedName k m) es \<union> stagedName k ` {m \<in> set ms. present cfg st m})"
      "\<forall>m \<in> set ms. present cfg st m \<longrightarrow> copy_ok e (path_join (uploadDir cfg) (filename m))"
      using same d1 by simp_all
    have "insert (stagedName k m) es \<union> stagedName k ` {m \<in> set ms. present cfg st m}
          = es \<union> stagedName k ` {x \<in> set (m # ms). present cfg st x}"
      using True by auto
    then show ?thesis using ih True es ok by simp
  qed
qed

lemma copy_files_Inl:
  "copy_files k cfg e tempDir rows (st, n) = Inl st' \<Longrightarrow>
     files st' = files st \<and> (\<forall>d. d \<noteq> tempDir \<longrightarrow> dirs st' d = dirs st d)
     \<and> (dirs st tempDir = None
         \<or> (\<exists>m \<in> set rows. present cfg st m \<and> \<not> copy_ok e (path_join (uploadDir cfg) (filename m))))"
proof (induction rows arbitrary: st n)
  case Nil
  then show ?case by simp
next
  case (Cons m ms)
  show ?case
  proof (cases "present cfg st m")
    case False
    then have "copy_files k cfg e tempDir ms (st, n) = Inl st'"
      using Cons.prems by (simp add: present_def Let_def)
    from Cons.IH[OF this] show ?thesis by auto
  next
    case True
    then have src: "path_join (uploadDir cfg) (filename m) \<in> files st" by (simp add: present_def)
    show ?thesis
    proof (cases "dirs st tempDir")
      case None
      then show ?thesis using Cons.prems src by (simp add: Let_def)
    next
      case (Some es)
      show ?thesis
      proof (cases "copy_ok e (path_join (uploadDir cfg) (filename m))")
        case False
        then show ?thesis using Cons.prems src Some True by (auto simp: Let_def)
      next
        case ok: True
        let ?st1 = "st\<lparr>dirs := (dirs st)(tempDir \<mapsto> insert (stagedName k m) es)\<rparr>"
        have rec: "copy_files k cfg e tempDir ms (?st1, Suc n) = Inl st'"
          using Cons.prems src Some ok by (simp add: Let_def)
        have same: "present cfg ?st1 = present cfg st" by (simp add: present_def fun_eq_iff)
        from Cons.IH[OF rec] show ?thesis using same by auto
      qed
    qed
  qed
qed

section \<open>Outcomes of the export\<close>

lemma copy_files_only_dirs:
  "copy_files k cfg e tempDir rows (st, n) = Inr (st', n') \<or>
   copy_files k cfg e tempDir rows (st, n) = Inl st' \<Longrightarrow> st' = st\<lparr>dirs := dirs st'\<rparr>"
proof (induction rows arbitrary: st n)
  case Nil
  then show ?case by auto
next
  case (Cons m ms)
  show ?case
  proof (cases "path_join (uploadDir cfg) (filename m) \<in> files st")
    case False
    then have "copy_files k cfg e tempDir ms (st, n) = Inr (st', n') \<or>
               copy_files k cfg e tempDir ms (st, n) = Inl st'"
      using Cons.prems by (simp add: Let_def)
    then show ?thesis by (rule Cons.IH)
  next
    case src: True
    show ?thesis
    proof (cases "dirs st tempDir")
      case None
      then show ?thesis using Cons.prems src by (simp add: Let_def)
    next
      case (Some es)
      show ?thesis
      proof (cases "copy_ok e (path_join (uploadDir cfg) (filename m))")
        case False
        then show ?thesis using Cons.prems src Some by (simp add: Let_def)
      next
        case True
        let ?st1 = "st\<lparr>dirs := (dirs st)(tempDir \<mapsto> insert (stagedName k m) es)\<rparr>"
        have "copy_files k cfg e tempDir ms (?st1, Suc n) = Inr (st', n') \<or>
              copy_files k cfg e tempDir ms (?st1, Suc n) = Inl st'"
          using Cons.prems src Some True by (simp add: Let_def)
        then have "st' = ?st1\<lparr>dirs := dirs st'\<rparr>" by (rule Cons.IH)
        then show ?thesis by simp
      qed
    qed
  qed
qed

lemma download_empty:
  "table k st = [] \<Longrightarrow>
     download k cfg e st =
       (st, Redirect (admin_page k) (Error (''No '' @ plural k @ '' to download.'')))"
  by (simp add: download_def Let_def query_newest_first_Nil)

lemma download_taken:
  "table k st \<noteq> [] \<Longrightarrow> dirs st (tempDir_of k cfg e) \<noteq> None \<or> tempDir_of k cfg e \<in> files st
     \<Longrightarrow> download k cfg e st = (st, Unhandled)"
  by (auto simp: download_def Let_def query_newest_first_Nil)

lemma cleanup_restores:
  assumes "st2 = st0\<lparr>dirs := dirs st2\<rparr>" and "st0 = st\<lparr>dirs := (dirs st)(T \<mapsto> {})\<rparr>"
    and "\<forall>d. d \<noteq> T \<longrightarrow> dirs st2 d = dirs st0 d" and "dirs st T = None"
    and "files stz = files st2 \<or> files stz = insert A (files st2)"
    and "stz = st2\<lparr>files := files stz\<rparr>"
  shows "safeRemoveDir T (safeUnlink A stz) = safeUnlink A st"
    and "safeUnlink A (safeRemoveDir T stz) = safeUnlink A st"
proof -
  have d: "(dirs st2)(T := None) = dirs st"
    using assms(2,3,4) by (auto simp: fun_eq_iff)
  have f2: "files st2 = files st" using assms(1,2) by (metis state.select_convs(7) state.surjective state.update_convs(8))
  have f: "files stz - {A} = files st - {A}" using assms(5) f2 by auto
  have e: "stz = st\<lparr>dirs := dirs st2, files := files stz\<rparr>"
    using assms(1,2,6) by (metis state.update_convs(8) state.surjective state.update_convs(7))
  show "safeRemoveDir T (safeUnlink A stz) = safeUnlink A st"
    by (subst e) (simp add: safeRemoveDir_def safeUnlink_def d f)
  show "safeUnlink A (safeRemoveDir T stz) = safeUnlink A st"
    by (subst e) (simp add: safeRemoveDir_def safeUnlink_def d f)
qed

lemma download_run:
  assumes ne: "table k st \<noteq> []"
    and fresh: "dirs st (tempDir_of k cfg e) = None" "tempDir_of k cfg e \<notin> files st"
  shows "download k cfg e st = (safeUnlink (archivePath_of k cfg e) st, export_outcome k cfg e st)"
proof -
  let ?T = "tempDir_of k cfg e" and ?A = "archivePath_of k cfg e"
  let ?rows = "query_newest_first (table k st)"
  let ?st0 = "st\<lparr>dirs := (dirs st)(?T \<mapsto> {})\<rparr>"
  let ?bad = "\<exists>m \<in> set (table k st). present cfg st m \<and> \<not> copy_ok e (path_join (uploadDir cfg) (filename m))"
  have rne: "?rows \<noteq> []" using ne by (simp add: query_newest_first_Nil)
  have same: "present cfg ?st0 = present cfg st" by (simp add: present_def fun_eq_iff)
  have d0: "dirs ?st0 ?T = Some {}" by simp
  have unf: "download k cfg e st =
      (case copy_files k cfg e ?T ?rows (?st0, 0) of
                   Inl st2 \<Rightarrow>
                     (safeRemoveDir ?T (safeUnlink ?A st2),
                      Redirect (admin_page k) (Error zip_failed_message))
                 | Inr (st2, copiedCount) \<Rightarrow>
                     if copiedCount = 0 then
                       (safeUnlink ?A (safeRemoveDir ?T st2),
                        Redirect (admin_page k) (Error (Noun k @ '' files are missing on disk.'')))
                     else
                       (case zip_result e of
                          ZipFailed partial \<Rightarrow>
                            (safeRemoveDir ?T
                               (safeUnlink ?A
                                  (if partial then st2\<lparr>files := insert ?A (files st2)\<rparr>
                                   else st2)),
                             Redirect (admin_page k) (Error zip_failed_message))
                        | ZipOk \<Rightarrow>
                            (safeRemoveDir ?T
                               (safeUnlink ?A
                                  (st2\<lparr>files := insert ?A (files st2)\<rparr>)),
                             Download ?A
                               (''dan-abi-wedding-'' @ plural k @ ''-'' @ stamp e @ ''.zip'')
                               (case dirs st2 ?T of None \<Rightarrow> {} | Some entries \<Rightarrow> entries))))"
    using rne fresh by (simp add: download_def Let_def)
  have resp_head: "export_outcome k cfg e st =
      (if ?bad then Redirect (admin_page k) (Error zip_failed_message)
       else if \<not> (\<exists>m \<in> set (table k st). present cfg st m) then
         Redirect (admin_page k) (Error (Noun k @ '' files are missing on disk.''))
       else (case zip_result e of
           ZipFailed partial \<Rightarrow> Redirect (admin_page k) (Error zip_failed_message)
         | ZipOk \<Rightarrow>
             Download ?A (''dan-abi-wedding-'' @ plural k @ ''-'' @ stamp e @ ''.zip'')
               (stagedName k ` {m \<in> set (table k st). present cfg st m})))"
    using ne fresh by (auto simp: export_outcome_def list_ex_iff)
  show ?thesis
  proof (cases "copy_files k cfg e ?T ?rows (?st0, 0)")
    case (Inl st2)
    from copy_files_Inl[OF Inl] have a: "files st2 = files ?st0"
      "\<forall>d. d \<noteq> ?T \<longrightarrow> dirs st2 d = dirs ?st0 d" and bad: ?bad
      using d0 same by (auto simp: set_query_newest_first)
    have od: "st2 = ?st0\<lparr>dirs := dirs st2\<rparr>" using copy_files_only_dirs Inl by blast
    have "safeRemoveDir ?T (safeUnlink ?A st2) = safeUnlink ?A st"
      by (rule cleanup_restores(1)[OF od refl a(2) fresh(1)]) simp_all
    then show ?thesis using unf Inl bad resp_head by simp
  next
    case (Inr r)
    obtain st2 n where r: "r = (st2, n)" by (cases r)
    have c: "copy_files k cfg e ?T ?rows (?st0, 0) = Inr (st2, n)" using Inr r by simp
    from copy_files_Inr[OF c] have a: "files st2 = files ?st0"
      "n = length (filter (present cfg st) ?rows)"
      "\<forall>d. d \<noteq> ?T \<longrightarrow> dirs st2 d = dirs ?st0 d"
      "dirs st2 ?T = Some (stagedName k ` {m \<in> set (table k st). present cfg st m})"
      and nobad: "\<not> ?bad"
      using d0 same by (auto simp: set_query_newest_first)
    have od: "st2 = ?st0\<lparr>dirs := dirs st2\<rparr>" using copy_files_only_dirs c by blast
    have n0: "n = 0 \<longleftrightarrow> \<not> (\<exists>m \<in> set (table k st). present cfg st m)"
      using a(2) by (auto simp: filter_empty_conv set_query_newest_first)
    have c1: "safeUnlink ?A (safeRemoveDir ?T st2) = safeUnlink ?A st"
      by (rule cleanup_restores(2)[OF od refl a(3) fresh(1)]) simp_all
    have c2: "safeRemoveDir ?T (safeUnlink ?A st2) = safeUnlink ?A st"
      by (rule cleanup_restores(1)[OF od refl a(3) fresh(1)]) simp_all
    have c3: "safeRemoveDir ?T (safeUnlink ?A (st2\<lparr>files := insert ?A (files st2)\<rparr>)) = safeUnlink ?A st"
      by (rule cleanup_restores(1)[OF od refl a(3) fresh(1)]) simp_all
    show ?thesis
    proof (cases "n = 0")
      case True
      then show ?thesis using unf c n0 nobad resp_head c1 by simp
    next
      case False
      then show ?thesis using unf c n0 nobad resp_head c2 c3 a(4)
        by (cases "zip_result e") auto
    qed
  qed
qed

text \<open>
  C6. An export of a kind without records answers "no files to download" and changes
  nothing. Otherwise, once the scratch directory is made, the state after the handler is
  the state before it without the archive path: scratch directory and archive are gone
  whatever happened in between. The response is "files are missing on disk" when no
  record has its file, "could not create archive" when a copy or the \<^verbatim>\<open>zip\<close> run fails, and
  the download otherwise.
\<close>

theorem download_outcomes:
  "(table k st = [] \<longrightarrow>
      download k cfg e st =
        (st, Redirect (admin_page k) (Error (''No '' @ plural k @ '' to download.''))))
   \<and> (table k st \<noteq> [] \<and> dirs st (tempDir_of k cfg e) = None \<and> tempDir_of k cfg e \<notin> files st \<longrightarrow>
        download k cfg e st = (safeUnlink (archivePath_of k cfg e) st, export_outcome k cfg e st)
        \<and> dirs (fst (download k cfg e st)) (tempDir_of k cfg e) = None
        \<and> archivePath_of k cfg e \<notin> files (fst (download k cfg e st))
        \<and> ((\<forall>m \<in> set (table k st). \<not> present cfg st m) \<longrightarrow>
              snd (download k cfg e st)
                = Redirect (admin_page k) (Error (Noun k @ '' files are missing on disk.'')))
        \<and> ((\<exists>m \<in> set (table k st). present cfg st m
                 \<and> \<not> copy_ok e (path_join (uploadDir cfg) (filename m))) \<longrightarrow>
              snd (download k cfg e st) = Redirect (admin_page k) (Error zip_failed_message))
        \<and> ((\<exists>m \<in> set (table k st). present cfg st m) \<and> zip_result e = ZipFailed partial \<longrightarrow>
              snd (download k cfg e st) = Redirect (admin_page k) (Error zip_failed_message))
        \<and> ((\<exists>m \<in> set (table k st). present cfg st m)
             \<and> (\<forall>m \<in> set (table k st). present cfg st m
                   \<longrightarrow> copy_ok e (path_join (uploadDir cfg) (filename m)))
             \<and> zip_result e = ZipOk \<longrightarrow>
              snd (download k cfg e st)
                = Download (archivePath_of k cfg e)
                    (''dan-abi-wedding-'' @ plural k @ ''-'' @ stamp e @ ''.zip'')
                    (stagedName k ` {m \<in> set (table k st). present cfg st m})))
   \<and> zip_failed_message = ''Could not create ZIP archive on this server.''"
proof -
  have run: "download k cfg e st = (safeUnlink (archivePath_of k cfg e) st, export_outcome k cfg e st)
        \<and> dirs (fst (download k cfg e st)) (tempDir_of k cfg e) = None
        \<and> archivePath_of k cfg e \<notin> files (fst (download k cfg e st))
        \<and> ((\<forall>m \<in> set (table k st). \<not> present cfg st m) \<longrightarrow>
              snd (download k cfg e st)
                = Redirect (admin_page k) (Error (Noun k @ '' files are missing on disk.'')))
        \<and> ((\<exists>m \<in> set (table k st). present cfg st m
                 \<and> \<not> copy_ok e (path_join (uploadDir cfg) (filename m))) \<longrightarrow>
              snd (download k cfg e st) = Redirect (admin_page k) (Error zip_failed_message))
        \<and> ((\<exists>m \<in> set (table k st). present cfg st m) \<and> zip_result e = ZipFailed partial \<longrightarrow>
              snd (download k cfg e st) = Redirect (admin_page k) (Error zip_failed_message))
        \<and> ((\<exists>m \<in> set (table k st). present cfg st m)
             \<and> (\<forall>m \<in> set (table k st). present cfg st m
                   \<longrightarrow> copy_ok e (path_join (uploadDir cfg) (filename m)))
             \<and> zip_result e = ZipOk \<longrightarrow>
              snd (download k cfg e st)
                = Download (archivePath_of k cfg e)
                    (''dan-abi-wedding-'' @ plural k @ ''-'' @ stamp e @ ''.zip'')
                    (stagedName k ` {m \<in> set (table k st). present cfg st m}))"
    if h: "table k st \<noteq> [] \<and> dirs st (tempDir_of k cfg e) = None \<and> tempDir_of k cfg e \<notin> files st"
  proof -
    have d: "download k cfg e st = (safeUnlink (archivePath_of k cfg e) st, export_outcome k cfg e st)"
      using h by (intro download_run) simp_all
    have s: "snd (download k cfg e st) = export_outcome k cfg e st"
      and f: "fst (download k cfg e st) = safeUnlink (archivePath_of k cfg e) st"
      using d by simp_all
    have 1: "dirs (fst (download k cfg e st)) (tempDir_of k cfg e) = None"
      using h by (simp add: f safeUnlink_fields)
    have 2: "archivePath_of k cfg e \<notin> files (fst (download k cfg e st))"
      by (simp add: f safeUnlink_fields)
    have 3: "snd (download k cfg e st)
                = Redirect (admin_page k) (Error (Noun k @ '' files are missing on disk.''))"
      if "\<forall>m \<in> set (table k st). \<not> present cfg st m"
      using that h by (simp add: s export_outcome_def list_ex_iff)
    have 4: "snd (download k cfg e st) = Redirect (admin_page k) (Error zip_failed_message)"
      if "\<exists>m \<in> set (table k st). present cfg st m
                 \<and> \<not> copy_ok e (path_join (uploadDir cfg) (filename m))"
      using that h by (simp add: s export_outcome_def list_ex_iff)
    have 5: "snd (download k cfg e st) = Redirect (admin_page k) (Error zip_failed_message)"
      if "(\<exists>m \<in> set (table k st). present cfg st m) \<and> zip_result e = ZipFailed partial"
      using that h by (simp add: s export_outcome_def list_ex_iff)
    have 6: "snd (download k cfg e st)
                = Download (archivePath_of k cfg e)
                    (''dan-abi-wedding-'' @ plural k @ ''-'' @ stamp e @ ''.zip'')
                    (stagedName k ` {m \<in> set (table k st). present cfg st m})"
      if "(\<exists>m \<in> set (table k st). present cfg st m)
             \<and> (\<forall>m \<in> set (table k st). present cfg st m
                   \<longrightarrow> copy_ok e (path_join (uploadDir cfg) (filename m)))
             \<and> zip_result e = ZipOk"
    proof -
      have "\<not> (\<exists>m \<in> set (table k st). present cfg st m
                 \<and> \<not> copy_ok e (path_join (uploadDir cfg) (filename m)))"
        using that by blast
      then show ?thesis using that h by (simp add: s export_outcome_def list_ex_iff)
    qed
    show ?thesis using d 1 2 3 4 5 6 by blast
  qed
  show ?thesis
    apply (intro conjI)
    subgoal by (simp add: download_empty)
    subgoal by (rule impI) (rule run)
    subgoal by (simp add: zip_failed_message_def)
    done
qed

theorem download_outcomes_witness:
  "fst (snd (download Video ex_cfg (ex_env ZipOk) ex_empty), table Video ex_empty)
     = Redirect ''/admin/videos'' (Error ''No videos to download.'')
   \<and> snd (download Video ex_cfg (ex_env ZipOk) ex_missing)
     = Redirect ''/admin/videos'' (Error ''Video files are missing on disk.'')
   \<and> dirs (fst (download Video ex_cfg (ex_env ZipOk) ex_missing)) ''tmp/wedding-videos-AbC123'' = None
   \<and> ''tmp/wedding-videos-42.zip'' \<notin> files (fst (download Video ex_cfg (ex_env ZipOk) ex_missing))
   \<and> snd (download Video ex_cfg (ex_env (ZipFailed True)) ex_alice)
     = Redirect ''/admin/videos'' (Error ''Could not create ZIP archive on this server.'')
   \<and> dirs (fst (download Video ex_cfg (ex_env (ZipFailed True)) ex_alice)) ''tmp/wedding-videos-AbC123'' = None
   \<and> ''tmp/wedding-videos-42.zip'' \<notin> files (fst (download Video ex_cfg (ex_env (ZipFailed True)) ex_alice))"
proof -
  have p: "admin_page Video = ''/admin/videos''"
    and m0: "''No '' @ plural Video @ '' to download.'' = ''No videos to download.''"
    and m1: "Noun Video @ '' files are missing on disk.'' = ''Video files are missing on disk.''"
    by code_simp+
  have t: "tempDir_of Video ex_cfg (ex_env z) = ''tmp/wedding-videos-AbC123''" for z
    by (simp add: tempDir_of_def ex_cfg_def ex_env_def path_join_def plural_def)
  have d42: "digits 42 = ''42''" by code_simp
  have a: "archivePath_of Video ex_cfg (ex_env z) = ''tmp/wedding-videos-42.zip''" for z
    by (simp add: archivePath_of_def ex_cfg_def ex_env_def path_join_def plural_def d42)
  have e0: "table Video ex_empty = []" by code_simp
  have m: "table Video ex_missing \<noteq> [] \<and> dirs ex_missing ''tmp/wedding-videos-AbC123'' = None
      \<and> ''tmp/wedding-videos-AbC123'' \<notin> files ex_missing"
    and m4: "\<forall>m \<in> set (table Video ex_missing). \<not> present ex_cfg ex_missing m"
    by code_simp+
  have z: "table Video ex_alice \<noteq> [] \<and> dirs ex_alice ''tmp/wedding-videos-AbC123'' = None
      \<and> ''tmp/wedding-videos-AbC123'' \<notin> files ex_alice"
    and z4: "\<exists>m \<in> set (table Video ex_alice). present ex_cfg ex_alice m"
    by code_simp+
  have zr: "zip_result (ex_env (ZipFailed True)) = ZipFailed True" by (simp add: ex_env_def)
  note E = download_outcomes[of Video ex_empty ex_cfg "ex_env ZipOk" True, unfolded t a p m0,
      THEN conjunct1, THEN mp, OF e0]
  note M = download_outcomes[of Video ex_missing ex_cfg "ex_env ZipOk" True, unfolded t a p m1,
      THEN conjunct2, THEN conjunct1, THEN mp, OF m, THEN conjunct2]
  note Z = download_outcomes[of Video ex_alice ex_cfg "ex_env (ZipFailed True)" True,
      unfolded t a p zip_failed_message_def,
      THEN conjunct2, THEN conjunct1, THEN mp, OF z, THEN conjunct2]
  have 1: "fst (snd (download Video ex_cfg (ex_env ZipOk) ex_empty), table Video ex_empty)
     = Redirect ''/admin/videos'' (Error ''No videos to download.'')"
    by (simp add: E)
  have 2: "dirs (fst (download Video ex_cfg (ex_env ZipOk) ex_missing)) ''tmp/wedding-videos-AbC123'' = None"
    by (rule M[THEN conjunct1])
  have 3: "''tmp/wedding-videos-42.zip'' \<notin> files (fst (download Video ex_cfg (ex_env ZipOk) ex_missing))"
    by (rule M[THEN conjunct2, THEN conjunct1])
  have 4: "snd (download Video ex_cfg (ex_env ZipOk) ex_missing)
     = Redirect ''/admin/videos'' (Error ''Video files are missing on disk.'')"
    by (rule M[THEN conjunct2, THEN conjunct2, THEN conjunct1, THEN mp, OF m4])
  have 5: "dirs (fst (download Video ex_cfg (ex_env (ZipFailed True)) ex_alice)) ''tmp/wedding-videos-AbC123'' = None"
    by (rule Z[THEN conjunct1])
  have 6: "''tmp/wedding-videos-42.zip'' \<notin> files (fst (download Video ex_cfg (ex_env (ZipFailed True)) ex_alice))"
    by (rule Z[THEN conjunct2, THEN conjunct1])
  have 7: "snd (download Video ex_cfg (ex_env (ZipFailed True)) ex_alice)
     = Redirect ''/admin/videos'' (Error ''Could not create ZIP archive on this server.'')"
    by (rule Z[THEN conjunct2, THEN conjunct2, THEN conjunct2, THEN conjunct2, THEN conjunct1,
          THEN mp, OF conjI, OF z4 zr])
  show ?thesis by (intro conjI 1 2 3 4 5 6 7)
qed

text \<open>
  C7, as amended. The staged name of a record is its row id, padded with zeros to four
  digits, a hyphen, and the sanitized original file name (the sanitized fallback name when
  the original name is empty). The number a staged name starts with is the row id, so
  records with different ids have different staged names, and a successful export holds
  one entry for each record whose file is present.
\<close>

theorem stagedName_embeds_row_id:
  "stagedName k m =
      padStart 4 (CHR ''0'') (digits (m_id m)) @ ''-''
        @ sanitizeArchiveFilename (if original_name m \<noteq> [] then original_name m else fallbackName k m)
   \<and> takeWhile is_digit (stagedName k m) = padStart 4 (CHR ''0'') (digits (m_id m))
   \<and> 4 \<le> length (takeWhile is_digit (stagedName k m))
   \<and> staged_number (stagedName k m) = m_id m
   \<and> (distinct (map m_id (table k st))
        \<longrightarrow> distinct (map (stagedName k) (query_newest_first (table k st)))
            \<and> inj_on (stagedName k) (set (table k st)))
   \<and> (table k st \<noteq> [] \<and> dirs st (tempDir_of k cfg e) = None \<and> tempDir_of k cfg e \<notin> files st
       \<and> (\<exists>m \<in> set (table k st). present cfg st m)
       \<and> (\<forall>m \<in> set (table k st). present cfg st m
             \<longrightarrow> copy_ok e (path_join (uploadDir cfg) (filename m)))
       \<and> zip_result e = ZipOk
       \<longrightarrow> snd (download k cfg e st)
             = Download (archivePath_of k cfg e)
                 (''dan-abi-wedding-'' @ plural k @ ''-'' @ stamp e @ ''.zip'')
                 (stagedName k ` {m \<in> set (table k st). present cfg st m}))"
proof -
  have 1: "distinct (map (stagedName k) (query_newest_first (table k st)))
            \<and> inj_on (stagedName k) (set (table k st))"
    if "distinct (map m_id (table k st))"
  proof -
    have d: "distinct (map (stagedName k) (table k st))" using that by (rule distinct_stagedName)
    then have "distinct (map (stagedName k) (query_newest_first (table k st)))"
      by (simp only: distinct_query_newest_first)
    moreover have "inj_on (stagedName k) (set (table k st))" using d by (simp add: distinct_map)
    ultimately show ?thesis by blast
  qed
  have 2: "snd (download k cfg e st)
             = Download (archivePath_of k cfg e)
                 (''dan-abi-wedding-'' @ plural k @ ''-'' @ stamp e @ ''.zip'')
                 (stagedName k ` {m \<in> set (table k st). present cfg st m})"
    if h: "table k st \<noteq> [] \<and> dirs st (tempDir_of k cfg e) = None \<and> tempDir_of k cfg e \<notin> files st
       \<and> (\<exists>m \<in> set (table k st). present cfg st m)
       \<and> (\<forall>m \<in> set (table k st). present cfg st m
             \<longrightarrow> copy_ok e (path_join (uploadDir cfg) (filename m)))
       \<and> zip_result e = ZipOk"
  proof -
    have "download k cfg e st = (safeUnlink (archivePath_of k cfg e) st, export_outcome k cfg e st)"
      using h by (intro download_run) simp_all
    moreover have "\<not> (\<exists>m \<in> set (table k st). present cfg st m
                 \<and> \<not> copy_ok e (path_join (uploadDir cfg) (filename m)))"
      using h by blast
    ultimately show ?thesis using h by (simp add: export_outcome_def list_ex_iff)
  qed
  have 3: "4 \<le> length (takeWhile is_digit (stagedName k m))"
    by (simp add: stagedName_prefix padStart_length)
  show ?thesis
    using 1 2 3 stagedName_prefix[of k m] staged_number_stagedName[of k m]
    by (simp add: stagedName_def)
qed

theorem stagedName_embeds_row_id_witness:
  "distinct (map m_id (table Video ex_alice))
   \<and> map (stagedName Video) (query_newest_first (table Video ex_alice))
       = [''0002-second.mp4'', ''0001-first.mp4'']
   \<and> distinct (map (stagedName Video) (query_newest_first (table Video ex_alice)))
   \<and> staged_number ''0002-second.mp4'' = 2
   \<and> snd (download Video ex_cfg (ex_env ZipOk) ex_alice)
       = Download ''tmp/wedding-videos-42.zip'' ''dan-abi-wedding-videos-2024-06-01.zip''
           {''0001-first.mp4'', ''0002-second.mp4''}"
proof -
  have d: "distinct (map m_id (table Video ex_alice))" by code_simp
  have n: "map (stagedName Video) (query_newest_first (table Video ex_alice))
       = [''0002-second.mp4'', ''0001-first.mp4'']" by code_simp
  have s2: "stagedName Video ex_v2 = ''0002-second.mp4''" and i2: "m_id ex_v2 = 2" by code_simp+
  have h: "table Video ex_alice \<noteq> [] \<and> dirs ex_alice (tempDir_of Video ex_cfg (ex_env ZipOk)) = None
    \<and> tempDir_of Video ex_cfg (ex_env ZipOk) \<notin> files ex_alice
    \<and> (\<exists>m \<in> set (table Video ex_alice). present ex_cfg ex_alice m)
    \<and> (\<forall>m \<in> set (table Video ex_alice). present ex_cfg ex_alice m
             \<longrightarrow> copy_ok (ex_env ZipOk) (path_join (uploadDir ex_cfg) (filename m)))
    \<and> zip_result (ex_env ZipOk) = ZipOk"
    by code_simp
  have v: "archivePath_of Video ex_cfg (ex_env ZipOk) = ''tmp/wedding-videos-42.zip''"
    "''dan-abi-wedding-'' @ plural Video @ ''-'' @ stamp (ex_env ZipOk) @ ''.zip''
       = ''dan-abi-wedding-videos-2024-06-01.zip''"
    "stagedName Video ` {m \<in> set (table Video ex_alice). present ex_cfg ex_alice m}
       = {''0001-first.mp4'', ''0002-second.mp4''}"
    by code_simp+
  note T = stagedName_embeds_row_id[of Video ex_v2 ex_alice ex_cfg "ex_env ZipOk",
      THEN conjunct2, THEN conjunct2, THEN conjunct2]
  have 1: "distinct (map (stagedName Video) (query_newest_first (table Video ex_alice)))"
    by (rule T[THEN conjunct2, THEN conjunct1, THEN mp, OF d, THEN conjunct1])
  have 2: "staged_number ''0002-second.mp4'' = 2"
    by (rule T[THEN conjunct1, unfolded s2 i2])
  have 3: "snd (download Video ex_cfg (ex_env ZipOk) ex_alice)
       = Download ''tmp/wedding-videos-42.zip'' ''dan-abi-wedding-videos-2024-06-01.zip''
           {''0001-first.mp4'', ''0002-second.mp4''}"
    by (rule T[THEN conjunct2, THEN conjunct2, THEN mp, OF h, unfolded v])
  show ?thesis by (intro conjI d n 1 2 3)
qed

text \<open>
  C7 as stated fails: the number in a staged name is the row id, not a position in the
  query order. With two videos, the newest-first query returns row 2 and then row 1, and
  their staged names carry 2 and 1: the numbers are not 1 and 2 in query order, and they
  run against that order.
\<close>

theorem stagedName_counterexample:
  "query_newest_first (table Video ex_alice) = [ex_v2, ex_v1]
   \<and> map (stagedName Video) (query_newest_first (table Video ex_alice))
       = [''0002-second.mp4'', ''0001-first.mp4'']
   \<and> map staged_number (map (stagedName Video) (query_newest_first (table Video ex_alice))) = [2, 1]
   \<and> map staged_number (map (stagedName Video) (query_newest_first (table Video ex_alice))) \<noteq> [1, 2]
   \<and> \<not> sorted (map staged_number (map (stagedName Video) (query_newest_first (table Video ex_alice))))"
  by code_simp

end
